theory Spec2Isabelle
  imports Main "HOL-Library.Word" "HOL-Library.Multiset"
begin

section \<open>mediametrics::Item: data model\<close>

text \<open>
  A shallow embedding of \<^verbatim>\<open>media/libmediametrics/MediaMetricsItem.cpp\<close>.

  Conventions of the model.
  \<^item> A \<^verbatim>\<open>char\<close> is a byte (\<open>8 word\<close>). A \<^verbatim>\<open>char *\<close> string is the list of its bytes
    before the terminating NUL, so such a list holds no zero byte.  The name of a
    property is a \<^verbatim>\<open>char *\<close> that can be null: \<open>None\<close> is the null pointer, \<open>Some []\<close>
    the empty string.  Where the source hands a null name to \<^verbatim>\<open>strlen\<close> or to the
    constructor of \<^verbatim>\<open>std::string\<close> the behaviour is undefined (the program crashes): the
    result of the model is then \<open>None\<close>.  \<^verbatim>\<open>mKey\<close> is a \<^verbatim>\<open>std::string\<close> and may hold zero
    bytes; where the source goes through \<^verbatim>\<open>c_str()\<close> the model cuts it at the first zero.
  \<^item> Fixed-width integers are words; \<^verbatim>\<open>double\<close> is only ever copied byte by byte
    by the byte codec and is kept as its 64-bit pattern.  \<^verbatim>\<open>memcpy\<close> of an integer is
    little-endian.
  \<^item> \<^verbatim>\<open>size_t\<close> quantities (string lengths, counts, offsets into a buffer) are
    natural numbers: they are bounded by the size of memory and do not wrap.
  \<^item> \<^verbatim>\<open>realloc\<close> in \<^verbatim>\<open>growProps\<close> and \<^verbatim>\<open>malloc\<close> in \<^verbatim>\<open>writeToByteString\<close>, whose
    results the source tests, may fail: an allocator \<open>al\<close> says whether a request for
    \<open>n\<close> units succeeds.  Allocations the source does not test are taken to succeed.
\<close>

type_synonym byte = "8 word"
type_synonym cstring = "byte list"
type_synonym allocator = "nat \<Rightarrow> bool"

datatype status_t = NO_ERROR | BAD_VALUE | INVALID_OPERATION | NO_MEMORY

datatype Type = kTypeNone | kTypeInt32 | kTypeInt64 | kTypeDouble | kTypeCString | kTypeRate

text \<open>
  The union \<^verbatim>\<open>u\<close> of a \<^verbatim>\<open>Prop\<close>: the member written last.  \<^verbatim>\<open>mType\<close> is a field of
  its own, as in the source, where the two can disagree after a failed decode.
\<close>

datatype Value =
    NoValue
  | Int32Value "32 word"
  | Int64Value "64 word"
  | DoubleValue "64 word"
  | CStringValue cstring
  | RateValue "64 word" "64 word"

record Prop =
  mName :: "cstring option"
  mType :: Type
  u :: Value

text \<open>
  Modelled from the spec: the class \<^verbatim>\<open>Prop\<close> is declared in MediaMetricsItem.h, which is
  not among the sources.  A default-constructed slot has type None and no name (4.1):
  the null pointer that \<^verbatim>\<open>Prop::readFromByteString\<close> tests for.  \<^verbatim>\<open>clear\<close> releases name
  and value; assignment and \<^verbatim>\<open>swap\<close> move name, type and value together, copying an
  owned string (4.4, 4.5); \<^verbatim>\<open>isNamed\<close> is exact name equality (4.1), so a slot without a
  name is named by no string; \<^verbatim>\<open>getName\<close> returns the pointer.
\<close>

definition Prop_default :: Prop where
  "Prop_default = \<lparr>mName = None, mType = kTypeNone, u = NoValue\<rparr>"

definition Prop_clear :: "Prop \<Rightarrow> Prop" where
  "Prop_clear p = Prop_default"

definition isNamed :: "Prop \<Rightarrow> cstring \<Rightarrow> bool" where
  "isNamed p name = (mName p = Some name)"

definition setName :: "Prop \<Rightarrow> cstring \<Rightarrow> Prop" where
  "setName p name = p\<lparr>mName := Some name\<rparr>"

definition getName :: "Prop \<Rightarrow> cstring option" where
  "getName p = mName p"

text \<open>
  Modelled from the spec: \<^verbatim>\<open>kGrowProps\<close>, the fixed grow-step of the store (4.1), is a
  constant of the missing header.  Only \<open>0 < kGrowProps\<close> is used.
\<close>

definition kGrowProps :: nat where
  "kGrowProps = 10"

text \<open>
  \<^verbatim>\<open>mProps\<close> is the whole allocated array, so \<^verbatim>\<open>mPropSize\<close> is its length; the
  entries in use are the first \<^verbatim>\<open>mPropCount\<close>.
\<close>

record Item =
  mKey :: "byte list"
  mPid :: "32 word"
  mUid :: "32 word"
  mPkgName :: "byte list"
  mPkgVersionCode :: "64 word"
  mTimestamp :: "64 word"
  mPropCount :: nat
  mProps :: "Prop list"

definition mPropSize :: "Item \<Rightarrow> nat" where
  "mPropSize it = length (mProps it)"

text \<open>The entries in use, and the representation invariant \<open>count \<le> capacity\<close>.\<close>

definition props :: "Item \<Rightarrow> Prop list" where
  "props it = take (mPropCount it) (mProps it)"

definition wf_item :: "Item \<Rightarrow> bool" where
  "wf_item it = (mPropCount it \<le> length (mProps it))"

text \<open>The invariant of the data model: no two entries in use share a non-empty name.\<close>

definition names_unique :: "Item \<Rightarrow> bool" where
  "names_unique it =
     distinct (filter (\<lambda>n. n \<noteq> None \<and> n \<noteq> Some []) (map mName (props it)))"

text \<open>No entry in use is without a name.\<close>

definition names_present :: "Item \<Rightarrow> bool" where
  "names_present it = list_all (\<lambda>p. mName p \<noteq> None) (props it)"

text \<open>\<^verbatim>\<open>strlen\<close> of a \<^verbatim>\<open>char *\<close> string that is not null is the length of its list.\<close>

definition strlen :: "cstring \<Rightarrow> nat" where
  "strlen s = length s"

section \<open>The property store\<close>

text \<open>\<^verbatim>\<open>findPropIndex\<close>: the loop, started at index \<open>i\<close>.\<close>

function findPropIndex_loop :: "Item \<Rightarrow> cstring \<Rightarrow> nat \<Rightarrow> nat" where
  "findPropIndex_loop it name i =
     (if i < mPropCount it
      then (if isNamed (mProps it ! i) name then i
            else findPropIndex_loop it name (Suc i))
      else i)"
  by pat_completeness auto
termination
  by (relation "measure (\<lambda>(it, name, i). mPropCount it - i)") auto

declare findPropIndex_loop.simps [simp del]

definition findPropIndex :: "Item \<Rightarrow> cstring \<Rightarrow> nat" where
  "findPropIndex it name = findPropIndex_loop it name 0"

text \<open>\<^verbatim>\<open>findProp\<close> returns a pointer into the array or null: here the index.\<close>

definition findProp :: "Item \<Rightarrow> cstring \<Rightarrow> nat option" where
  "findProp it name =
     (let i = findPropIndex it name in if i < mPropCount it then Some i else None)"

text \<open>
  \<^verbatim>\<open>growProps(increment)\<close>: the new slots are default-constructed, the old ones keep
  their contents.  \<^verbatim>\<open>realloc\<close> may fail.
\<close>

definition growProps :: "allocator \<Rightarrow> Item \<Rightarrow> int \<Rightarrow> bool \<times> Item" where
  "growProps al it increment =
     (let inc = (if increment \<le> 0 then kGrowProps else nat increment);
          nsize = mPropSize it + inc
      in if al nsize
         then (True, it\<lparr>mProps := mProps it @ replicate inc Prop_default\<rparr>)
         else (False, it))"

text \<open>
  \<^verbatim>\<open>allocateProp()\<close>: the next slot, as it is (fresh, or left over from a removal).
  \<open>None\<close> is the null pointer.
\<close>

definition allocateProp0 :: "allocator \<Rightarrow> Item \<Rightarrow> (nat \<times> Item) option" where
  "allocateProp0 al it =
     (if mPropCount it = mPropSize it
      then (case growProps al it 0 of
              (False, _) \<Rightarrow> None
            | (True, it') \<Rightarrow> Some (mPropCount it', it'\<lparr>mPropCount := Suc (mPropCount it')\<rparr>))
      else Some (mPropCount it, it\<lparr>mPropCount := Suc (mPropCount it)\<rparr>))"

text \<open>\<^verbatim>\<open>allocateProp(name)\<close>: find-or-allocate.\<close>

definition allocateProp :: "allocator \<Rightarrow> Item \<Rightarrow> cstring \<Rightarrow> (nat \<times> Item) option" where
  "allocateProp al it name =
     (let i = findPropIndex it name in
      if i < mPropCount it then Some (i, it)
      else (case allocateProp0 al it of
              None \<Rightarrow> None
            | Some (j, it') \<Rightarrow>
                Some (j, it'\<lparr>mProps := (mProps it')[j := setName (mProps it' ! j) name]\<rparr>)))"

text \<open>\<^verbatim>\<open>removeProp\<close>: clear the entry, swap it with the last one in use, shrink.\<close>

definition swap_at :: "'a list \<Rightarrow> nat \<Rightarrow> nat \<Rightarrow> 'a list" where
  "swap_at xs i j = xs[i := xs ! j, j := xs ! i]"

definition removeProp :: "Item \<Rightarrow> cstring \<Rightarrow> bool \<times> Item" where
  "removeProp it name =
     (let i = findPropIndex it name in
      if i < mPropCount it
      then (let ps = (mProps it)[i := Prop_clear (mProps it ! i)];
                ps' = (if i \<noteq> mPropCount it - 1
                       then swap_at ps i (mPropCount it - 1) else ps)
            in (True, it\<lparr>mProps := ps', mPropCount := mPropCount it - 1\<rparr>))
      else (False, it))"

text \<open>
  \<^verbatim>\<open>filter(n, attrs)\<close>: one pass over the names; the state is the item and the
  running count \<^verbatim>\<open>zapped\<close>.
\<close>

definition filter_step :: "nat \<times> Item \<Rightarrow> cstring \<Rightarrow> nat \<times> Item" where
  "filter_step s name =
     (case s of (zapped, it) \<Rightarrow>
        let j = findPropIndex it name in
        if j \<ge> mPropCount it then (zapped, it)
        else if j + 1 = mPropCount it
        then (zapped + 1,
              it\<lparr>mProps := (mProps it)[j := Prop_clear (mProps it ! j)],
                 mPropCount := mPropCount it - 1\<rparr>)
        else (zapped + 1,
              it\<lparr>mProps := (mProps it)[j := mProps it ! (mPropCount it - 1)],
                 mPropCount := mPropCount it - 1\<rparr>))"

fun filter_loop :: "nat \<times> Item \<Rightarrow> cstring list \<Rightarrow> nat \<times> Item" where
  "filter_loop s [] = s"
| "filter_loop s (name # attrs) = filter_loop (filter_step s name) attrs"

definition filter_item :: "Item \<Rightarrow> cstring list \<Rightarrow> nat \<times> Item" where
  "filter_item it attrs = filter_loop (0, it) attrs"

text \<open>
  \<^verbatim>\<open>filterNot(n, attrs)\<close>: the compaction pass over index \<open>j\<close>; \<open>check\<close> is the
  \<^verbatim>\<open>std::set\<close> built from the names.  The look-up makes a \<^verbatim>\<open>std::string\<close> of
  \<^verbatim>\<open>getName()\<close>, which is undefined for a null name.
\<close>

function filterNot_loop :: "cstring set \<Rightarrow> nat \<Rightarrow> Item \<Rightarrow> nat \<Rightarrow> (nat \<times> Item) option" where
  "filterNot_loop check zapped it j =
     (if j < mPropCount it
      then (if getName (mProps it ! j) = None then None
            else if the (getName (mProps it ! j)) \<in> check
            then filterNot_loop check zapped it (Suc j)
            else if j + 1 = mPropCount it
            then Some (zapped + 1,
                  it\<lparr>mProps := (mProps it)[j := Prop_clear (mProps it ! j)],
                     mPropCount := mPropCount it - 1\<rparr>)
            else filterNot_loop check (zapped + 1)
                   (it\<lparr>mProps := (mProps it)[j := mProps it ! (mPropCount it - 1)],
                       mPropCount := mPropCount it - 1\<rparr>) j)
      else Some (zapped, it))"
  by pat_completeness auto
termination
  by (relation "measure (\<lambda>(check, zapped, it, j). mPropCount it - j)") auto

declare filterNot_loop.simps [simp del]

definition filterNot :: "Item \<Rightarrow> cstring list \<Rightarrow> (nat \<times> Item) option" where
  "filterNot it attrs = filterNot_loop (set attrs) 0 it 0"

text \<open>
  \<^verbatim>\<open>merge\<close>: the body of the loop for one incoming property, then the loop over the
  incoming entries in use.  \<^verbatim>\<open>strlen\<close> of the incoming name comes first: undefined for
  a null name.  A property whose slot cannot be allocated is dropped.
\<close>

definition merge_step :: "allocator \<Rightarrow> Item \<Rightarrow> Prop \<Rightarrow> Item option" where
  "merge_step al it iprop =
     (case mName iprop of
        None \<Rightarrow> None
      | Some p \<Rightarrow>
          if strlen p = 0 then Some it
          else (case findProp it p of
                  None \<Rightarrow>
                    (case allocateProp al it p of
                       Some (j, it') \<Rightarrow> Some (it'\<lparr>mProps := (mProps it')[j := iprop]\<rparr>)
                     | None \<Rightarrow> Some it)
                | Some j \<Rightarrow> Some (it\<lparr>mProps := (mProps it)[j := iprop]\<rparr>)))"

fun merge_loop :: "allocator \<Rightarrow> Item \<Rightarrow> Prop list \<Rightarrow> Item option" where
  "merge_loop al it [] = Some it"
| "merge_loop al it (iprop # rest) =
     (case merge_step al it iprop of
        None \<Rightarrow> None
      | Some it' \<Rightarrow> merge_loop al it' rest)"

definition merge :: "allocator \<Rightarrow> Item \<Rightarrow> Item \<Rightarrow> (bool \<times> Item) option" where
  "merge al it incoming =
     (let it1 = (if mKey it = [] then it\<lparr>mKey := mKey incoming\<rparr> else it)
      in case merge_loop al it1 (props incoming) of
           None \<Rightarrow> None
         | Some it' \<Rightarrow> Some (True, it'))"


section \<open>Auxiliary notions for the store\<close>

text \<open>
  \<open>lookup\<close> is the property \<^verbatim>\<open>findProp\<close> points to; \<open>hdr\<close> collects the fields outside
  the store; \<open>upsert\<close> is what one step of \<^verbatim>\<open>merge\<close> does to the entries in use.
\<close>

text \<open>The effect of one \<^verbatim>\<open>merge\<close> step on the entries in use, when the slot is granted.\<close>

definition upsert :: "Prop list \<Rightarrow> Prop \<Rightarrow> Prop list" where
  "upsert xs p =
     (if mName p = Some [] then xs
      else (let i = length (takeWhile (\<lambda>q. mName q \<noteq> mName p) xs)
            in if i < length xs then xs[i := p] else xs @ [p]))"

definition lookup :: "Item \<Rightarrow> cstring \<Rightarrow> Prop option" where
  "lookup it name = find (\<lambda>p. mName p = Some name) (props it)"

definition hdr :: "Item \<Rightarrow> byte list \<times> 32 word \<times> 32 word \<times> byte list \<times> 64 word \<times> 64 word" where
  "hdr it = (mKey it, mPid it, mUid it, mPkgName it, mPkgVersionCode it, mTimestamp it)"

text \<open>No slot is left and \<^verbatim>\<open>growProps\<close> is refused: \<^verbatim>\<open>allocateProp\<close> returns null.\<close>

definition store_full :: "allocator \<Rightarrow> Item \<Rightarrow> bool" where
  "store_full al it = (mPropCount it = mPropSize it \<and> \<not> al (mPropSize it + kGrowProps))"

text \<open>
  Sequences of the store operations that go through find-or-allocate.  A failed
  allocation leaves the item as it is; \<open>None\<close> is a merge that does not return.
\<close>

datatype store_op = FindOrAllocate cstring | Merge Item

fun apply_op :: "allocator \<Rightarrow> Item \<Rightarrow> store_op \<Rightarrow> Item option" where
  "apply_op al it (FindOrAllocate name) =
     (case allocateProp al it name of Some (j, it') \<Rightarrow> Some it' | None \<Rightarrow> Some it)"
| "apply_op al it (Merge incoming) = map_option snd (merge al it incoming)"

fun run_ops :: "allocator \<Rightarrow> Item \<Rightarrow> store_op list \<Rightarrow> Item option" where
  "run_ops al it [] = Some it"
| "run_ops al it (op # ops) =
     (case apply_op al it op of None \<Rightarrow> None | Some it' \<Rightarrow> run_ops al it' ops)"

text \<open>The merges of a sequence take incoming items whose entries in use all have names.\<close>

fun op_ok :: "store_op \<Rightarrow> bool" where
  "op_ok (FindOrAllocate name) = True"
| "op_ok (Merge incoming) = names_present incoming"

section \<open>The byte codec\<close>

subsection \<open>Bytes of fixed-width values\<close>

text \<open>\<^verbatim>\<open>memcpy\<close> of a \<open>w\<close>-bit value: its \<open>w div 8\<close> bytes, least significant first.\<close>

fun le_bytes :: "nat \<Rightarrow> nat \<Rightarrow> byte list" where
  "le_bytes 0 k = []"
| "le_bytes (Suc n) k = of_nat (k mod 256) # le_bytes n (k div 256)"

fun le_nat :: "byte list \<Rightarrow> nat" where
  "le_nat [] = 0"
| "le_nat (b # bs) = unat b + 256 * le_nat bs"

definition sizeof :: "'a::len word \<Rightarrow> nat" where
  "sizeof w = LENGTH('a) div 8"

definition word_bytes :: "'a::len word \<Rightarrow> byte list" where
  "word_bytes w = le_bytes (sizeof w) (unat w)"

definition bytes_word :: "byte list \<Rightarrow> 'a::len word" where
  "bytes_word bs = of_nat (le_nat bs)"

definition UINT16_MAX :: nat where
  "UINT16_MAX = 65535"

definition UINT32_MAX :: nat where
  "UINT32_MAX = 4294967295"

text \<open>
  The type codes \<^verbatim>\<open>kTypeInt32\<close>, ... are enumerators of the missing header; their
  values as a \<^verbatim>\<open>uint8_t\<close> are a parameter \<open>tg\<close> of the codec.  \<open>aosp_tags\<close> are the
  values of the Android header, used in the examples.
\<close>

type_synonym tags = "Type \<Rightarrow> byte"

definition aosp_tags :: tags where
  "aosp_tags t = (case t of kTypeNone \<Rightarrow> 0 | kTypeInt32 \<Rightarrow> 1 | kTypeInt64 \<Rightarrow> 2
                   | kTypeDouble \<Rightarrow> 3 | kTypeCString \<Rightarrow> 4 | kTypeRate \<Rightarrow> 5)"

text \<open>\<^verbatim>\<open>c_str()\<close> of a \<^verbatim>\<open>std::string\<close>, read as a C string, ends at the first zero byte.\<close>

definition c_str :: "byte list \<Rightarrow> cstring" where
  "c_str s = takeWhile (\<lambda>b. b \<noteq> 0) s"

text \<open>
  Reading a member of the union.  Reading a member other than the one written last is
  not defined by the source language: for the numeric members the model gives zero; for
  the string member it gives \<open>None\<close>, a pointer that is not a string, and what the
  source does with it (\<^verbatim>\<open>strlen\<close>) is undefined.
\<close>

definition int32Value :: "Value \<Rightarrow> 32 word" where
  "int32Value v = (case v of Int32Value x \<Rightarrow> x | _ \<Rightarrow> 0)"

definition int64Value :: "Value \<Rightarrow> 64 word" where
  "int64Value v = (case v of Int64Value x \<Rightarrow> x | _ \<Rightarrow> 0)"

definition doubleValue :: "Value \<Rightarrow> 64 word" where
  "doubleValue v = (case v of DoubleValue x \<Rightarrow> x | _ \<Rightarrow> 0)"

definition rate_first :: "Value \<Rightarrow> 64 word" where
  "rate_first v = (case v of RateValue a b \<Rightarrow> a | _ \<Rightarrow> 0)"

definition rate_second :: "Value \<Rightarrow> 64 word" where
  "rate_second v = (case v of RateValue a b \<Rightarrow> b | _ \<Rightarrow> 0)"

definition cstringValue :: "Value \<Rightarrow> cstring option" where
  "cstringValue v = (case v of CStringValue s \<Rightarrow> Some s | _ \<Rightarrow> None)"

subsection \<open>Encoding\<close>

text \<open>
  The buffer under construction is the list of the bytes written so far: \<^verbatim>\<open>*bufferpptr\<close>
  is the offset \<open>length buf\<close> from \<^verbatim>\<open>build\<close>, and \<^verbatim>\<open>bufferptrmax\<close> is the offset \<open>bmax\<close>.
  \<^verbatim>\<open>insert\<close> appends at the cursor or fails without writing.
\<close>

definition insert_val :: "'a::len word \<Rightarrow> byte list \<Rightarrow> nat \<Rightarrow> status_t \<times> byte list" where
  "insert_val val buf bmax =
     (let sz = sizeof val in
      if length buf + sz > bmax then (BAD_VALUE, buf)
      else (NO_ERROR, buf @ word_bytes val))"

definition insert_cstr :: "cstring \<Rightarrow> byte list \<Rightarrow> nat \<Rightarrow> status_t \<times> byte list" where
  "insert_cstr val buf bmax =
     (let sz = strlen val + 1 in
      if sz > UINT16_MAX \<or> length buf + sz > bmax then (BAD_VALUE, buf)
      else (NO_ERROR, buf @ val @ [0]))"

text \<open>The chain \<^verbatim>\<open>a ?: b\<close>: \<^verbatim>\<open>b\<close> runs only when \<^verbatim>\<open>a\<close> returned \<^verbatim>\<open>NO_ERROR\<close>.\<close>

definition and_then ::
  "status_t \<times> byte list \<Rightarrow> (byte list \<Rightarrow> status_t \<times> byte list) \<Rightarrow> status_t \<times> byte list" where
  "and_then r f = (case r of (NO_ERROR, buf) \<Rightarrow> f buf | (e, buf) \<Rightarrow> (e, buf))"

text \<open>The overloads of \<^verbatim>\<open>BaseItem::writeToByteString\<close>, one per value type.\<close>

definition writeToByteString_int32 ::
  "tags \<Rightarrow> cstring \<Rightarrow> 32 word \<Rightarrow> byte list \<Rightarrow> nat \<Rightarrow> status_t \<times> byte list" where
  "writeToByteString_int32 tg name val buf bmax =
     (let len = 2 + 1 + strlen name + 1 + sizeof val in
      if len > UINT16_MAX then (BAD_VALUE, buf)
      else and_then (and_then (and_then
             (insert_val (of_nat len :: 16 word) buf bmax)
             (\<lambda>b. insert_val (tg kTypeInt32) b bmax))
             (\<lambda>b. insert_cstr name b bmax))
             (\<lambda>b. insert_val val b bmax))"

definition writeToByteString_int64 ::
  "tags \<Rightarrow> cstring \<Rightarrow> 64 word \<Rightarrow> byte list \<Rightarrow> nat \<Rightarrow> status_t \<times> byte list" where
  "writeToByteString_int64 tg name val buf bmax =
     (let len = 2 + 1 + strlen name + 1 + sizeof val in
      if len > UINT16_MAX then (BAD_VALUE, buf)
      else and_then (and_then (and_then
             (insert_val (of_nat len :: 16 word) buf bmax)
             (\<lambda>b. insert_val (tg kTypeInt64) b bmax))
             (\<lambda>b. insert_cstr name b bmax))
             (\<lambda>b. insert_val val b bmax))"

definition writeToByteString_double ::
  "tags \<Rightarrow> cstring \<Rightarrow> 64 word \<Rightarrow> byte list \<Rightarrow> nat \<Rightarrow> status_t \<times> byte list" where
  "writeToByteString_double tg name val buf bmax =
     (let len = 2 + 1 + strlen name + 1 + sizeof val in
      if len > UINT16_MAX then (BAD_VALUE, buf)
      else and_then (and_then (and_then
             (insert_val (of_nat len :: 16 word) buf bmax)
             (\<lambda>b. insert_val (tg kTypeDouble) b bmax))
             (\<lambda>b. insert_cstr name b bmax))
             (\<lambda>b. insert_val val b bmax))"

definition writeToByteString_rate ::
  "tags \<Rightarrow> cstring \<Rightarrow> 64 word \<times> 64 word \<Rightarrow> byte list \<Rightarrow> nat \<Rightarrow> status_t \<times> byte list" where
  "writeToByteString_rate tg name val buf bmax =
     (let len = 2 + 1 + strlen name + 1 + 8 + 8 in
      if len > UINT16_MAX then (BAD_VALUE, buf)
      else and_then (and_then (and_then (and_then
             (insert_val (of_nat len :: 16 word) buf bmax)
             (\<lambda>b. insert_val (tg kTypeRate) b bmax))
             (\<lambda>b. insert_cstr name b bmax))
             (\<lambda>b. insert_val (fst val) b bmax))
             (\<lambda>b. insert_val (snd val) b bmax))"

definition writeToByteString_cstr ::
  "tags \<Rightarrow> cstring \<Rightarrow> cstring \<Rightarrow> byte list \<Rightarrow> nat \<Rightarrow> status_t \<times> byte list" where
  "writeToByteString_cstr tg name val buf bmax =
     (let len = 2 + 1 + strlen name + 1 + strlen val + 1 in
      if len > UINT16_MAX then (BAD_VALUE, buf)
      else and_then (and_then (and_then
             (insert_val (of_nat len :: 16 word) buf bmax)
             (\<lambda>b. insert_val (tg kTypeCString) b bmax))
             (\<lambda>b. insert_cstr name b bmax))
             (\<lambda>b. insert_cstr val b bmax))"

text \<open>The overload for \<^verbatim>\<open>none_t\<close> writes the type code \<^verbatim>\<open>kTypeCString\<close>, as the source does.\<close>

definition writeToByteString_none ::
  "tags \<Rightarrow> cstring \<Rightarrow> byte list \<Rightarrow> nat \<Rightarrow> status_t \<times> byte list" where
  "writeToByteString_none tg name buf bmax =
     (let len = 2 + 1 + strlen name + 1 in
      if len > UINT16_MAX then (BAD_VALUE, buf)
      else and_then (and_then
             (insert_val (of_nat len :: 16 word) buf bmax)
             (\<lambda>b. insert_val (tg kTypeCString) b bmax))
             (\<lambda>b. insert_cstr name b bmax))"

text \<open>
  \<^verbatim>\<open>Prop::writeToByteString\<close> and \<^verbatim>\<open>Prop::getByteStringSize\<close>.  \<open>Type\<close> has the six
  enumerators only, so the \<^verbatim>\<open>default\<close> branch of the first is not reached; in the second
  \<^verbatim>\<open>kTypeNone\<close> takes the \<^verbatim>\<open>default\<close> branch, with no payload.  Both take \<^verbatim>\<open>strlen\<close> of
  the name, and of the string value of a string property: the result is \<open>None\<close> when that
  pointer is null or not a string.
\<close>

definition Prop_writeToByteString ::
  "tags \<Rightarrow> Prop \<Rightarrow> byte list \<Rightarrow> nat \<Rightarrow> (status_t \<times> byte list) option" where
  "Prop_writeToByteString tg p buf bmax =
     (case mName p of
        None \<Rightarrow> None
      | Some name \<Rightarrow>
     (case mType p of
        kTypeInt32 \<Rightarrow> Some (writeToByteString_int32 tg name (int32Value (u p)) buf bmax)
      | kTypeInt64 \<Rightarrow> Some (writeToByteString_int64 tg name (int64Value (u p)) buf bmax)
      | kTypeDouble \<Rightarrow> Some (writeToByteString_double tg name (doubleValue (u p)) buf bmax)
      | kTypeRate \<Rightarrow>
          Some (writeToByteString_rate tg name (rate_first (u p), rate_second (u p)) buf bmax)
      | kTypeCString \<Rightarrow>
          (case cstringValue (u p) of
             None \<Rightarrow> None
           | Some val \<Rightarrow> Some (writeToByteString_cstr tg name val buf bmax))
      | kTypeNone \<Rightarrow> Some (writeToByteString_none tg name buf bmax)))"

definition getByteStringSize :: "Prop \<Rightarrow> nat option" where
  "getByteStringSize p =
     (case mName p of
        None \<Rightarrow> None
      | Some name \<Rightarrow>
     (let header = 2 + 1 + strlen name + 1 in
      case mType p of
        kTypeInt32 \<Rightarrow> Some (header + 4)
      | kTypeInt64 \<Rightarrow> Some (header + 8)
      | kTypeDouble \<Rightarrow> Some (header + 8)
      | kTypeRate \<Rightarrow> Some (header + (8 + 8))
      | kTypeCString \<Rightarrow>
          (case cstringValue (u p) of
             None \<Rightarrow> None
           | Some val \<Rightarrow> Some (header + (strlen val + 1)))
      | kTypeNone \<Rightarrow> Some (header + 0)))"

text \<open>
  \<^verbatim>\<open>Item::writeToByteString\<close>, first part: the sizes.  \<^verbatim>\<open>size\<close> (here \<open>sz\<close>) is a
  \<^verbatim>\<open>uint32_t\<close>; \<^verbatim>\<open>__builtin_add_overflow\<close> fails when the exact sum does not fit.  The outer
  \<open>None\<close> is the undefined \<^verbatim>\<open>strlen\<close> inside \<^verbatim>\<open>getByteStringSize\<close>.
\<close>

fun add_prop_sizes :: "nat \<Rightarrow> Prop list \<Rightarrow> (status_t + nat) option" where
  "add_prop_sizes sz [] = Some (Inr sz)"
| "add_prop_sizes sz (p # ps) =
     (case getByteStringSize p of
        None \<Rightarrow> None
      | Some propSize \<Rightarrow>
          if propSize > UINT16_MAX then Some (Inl INVALID_OPERATION)
          else if sz + propSize > UINT32_MAX then Some (Inl INVALID_OPERATION)
          else add_prop_sizes (sz + propSize) ps)"

definition header_size_of :: "Item \<Rightarrow> nat" where
  "header_size_of it = 4 + 4 + 2 + 2 + (strlen (c_str (mKey it)) + 1) + 4 + 4 + 8"

definition byteStringSize :: "Item \<Rightarrow> (status_t + nat) option" where
  "byteStringSize it =
     (let keySizeZeroTerminated = strlen (c_str (mKey it)) + 1 in
      if keySizeZeroTerminated > UINT16_MAX then Some (Inl INVALID_OPERATION)
      else add_prop_sizes (header_size_of it + 4) (props it))"

text \<open>Second part: the header fields, then the properties, written in order.\<close>

definition write_header :: "Item \<Rightarrow> nat \<Rightarrow> byte list \<Rightarrow> status_t \<times> byte list" where
  "write_header it sz buf =
     and_then (and_then (and_then (and_then (and_then (and_then (and_then (and_then
       (insert_val (of_nat sz :: 32 word) buf sz)
       (\<lambda>b. insert_val (of_nat (header_size_of it) :: 32 word) b sz))
       (\<lambda>b. insert_val (0 :: 16 word) b sz))
       (\<lambda>b. insert_val (of_nat (strlen (c_str (mKey it)) + 1) :: 16 word) b sz))
       (\<lambda>b. insert_cstr (c_str (mKey it)) b sz))
       (\<lambda>b. insert_val (mPid it) b sz))
       (\<lambda>b. insert_val (mUid it) b sz))
       (\<lambda>b. insert_val (mTimestamp it) b sz))
       (\<lambda>b. insert_val (of_nat (mPropCount it) :: 32 word) b sz)"

fun write_props ::
  "tags \<Rightarrow> Prop list \<Rightarrow> byte list \<Rightarrow> nat \<Rightarrow> (status_t \<times> byte list) option" where
  "write_props tg [] buf bmax = Some (NO_ERROR, buf)"
| "write_props tg (p # ps) buf bmax =
     (case Prop_writeToByteString tg p buf bmax of
        None \<Rightarrow> None
      | Some (NO_ERROR, buf') \<Rightarrow> write_props tg ps buf' bmax
      | Some (e, buf') \<Rightarrow> Some (INVALID_OPERATION, buf'))"

text \<open>
  \<^verbatim>\<open>Item::writeToByteString\<close>.  The second component of a result is what the call
  stores through \<^verbatim>\<open>pbuffer\<close> and \<^verbatim>\<open>plength\<close>: \<open>None\<close> when it stores nothing.  The two
  flags say whether \<^verbatim>\<open>pbuffer\<close> and \<^verbatim>\<open>plength\<close> are null.  The outer \<open>None\<close> is a call
  that does not return.
\<close>

definition writeToByteString ::
  "tags \<Rightarrow> allocator \<Rightarrow> Item \<Rightarrow> bool \<Rightarrow> bool
     \<Rightarrow> (status_t \<times> (byte list \<times> nat) option) option" where
  "writeToByteString tg al it pbuffer_null plength_null =
     (if pbuffer_null \<or> plength_null then Some (BAD_VALUE, None)
      else (case byteStringSize it of
              None \<Rightarrow> None
            | Some (Inl e) \<Rightarrow> Some (e, None)
            | Some (Inr sz) \<Rightarrow>
                if \<not> al sz then Some (NO_MEMORY, None)
                else (case write_header it sz [] of
                        (NO_ERROR, filling) \<Rightarrow>
                          (case write_props tg (props it) filling sz of
                             None \<Rightarrow> None
                           | Some (NO_ERROR, filling') \<Rightarrow>
                               if length filling' \<noteq> sz then Some (INVALID_OPERATION, None)
                               else Some (NO_ERROR, Some (filling', sz))
                           | Some (e, _) \<Rightarrow> Some (INVALID_OPERATION, None))
                      | (e, _) \<Rightarrow> Some (INVALID_OPERATION, None))))"

subsection \<open>Decoding\<close>

text \<open>
  The decoder is handed a pointer and a length.  Memory is the function from offsets
  (relative to \<^verbatim>\<open>bufferptr\<close>) to bytes; the supplied buffer is the offsets below
  \<open>length\<close>, and \<^verbatim>\<open>readend\<close> is the offset \<open>length\<close>.  Offsets from \<open>length\<close> on are memory
  behind the buffer: the model can tell a read there from a read inside.
\<close>

type_synonym memory = "nat \<Rightarrow> byte"

definition mem_of :: "byte list \<Rightarrow> memory \<Rightarrow> memory" where
  "mem_of buf beyond i = (if i < length buf then buf ! i else beyond (i - length buf))"

text \<open>\<^verbatim>\<open>extract<T>\<close>: the value and the advanced read pointer, or \<^verbatim>\<open>BAD_VALUE\<close>.\<close>

definition extract_val :: "memory \<Rightarrow> nat \<Rightarrow> nat \<Rightarrow> status_t + ('a::len word \<times> nat)" where
  "extract_val mem rd rmax =
     (let sz = LENGTH('a) div 8 in
      if rd + sz > rmax then Inl BAD_VALUE
      else Inr (bytes_word (map mem [rd..<rd + sz]), rd + sz))"

text \<open>
  \<^verbatim>\<open>extract<char **>\<close>: the loop looks at \<^verbatim>\<open>*ptr\<close> first and compares \<^verbatim>\<open>ptr\<close> with
  \<^verbatim>\<open>bufferptrmax\<close> only when the byte is not zero.  The result of the loop is the offset
  of the terminator, or nothing for \<^verbatim>\<open>BAD_VALUE\<close>.
\<close>

function extract_cstr_loop :: "memory \<Rightarrow> nat \<Rightarrow> nat \<Rightarrow> nat option" where
  "extract_cstr_loop mem rmax ptr =
     (if mem ptr \<noteq> 0
      then (if ptr \<ge> rmax then None else extract_cstr_loop mem rmax (Suc ptr))
      else Some ptr)"
  by pat_completeness auto
termination
  by (relation "measure (\<lambda>(mem, rmax, ptr). rmax - ptr)") auto

declare extract_cstr_loop.simps [simp del]

definition extract_cstr :: "memory \<Rightarrow> nat \<Rightarrow> nat \<Rightarrow> status_t + (cstring \<times> nat)" where
  "extract_cstr mem rd rmax =
     (case extract_cstr_loop mem rmax rd of
        None \<Rightarrow> Inl BAD_VALUE
      | Some ptr \<Rightarrow> (let sz = (ptr - rd) + 1 in Inr (map mem [rd..<ptr], rd + sz)))"

text \<open>
  \<^verbatim>\<open>(Type)type\<close> followed by the \<^verbatim>\<open>switch\<close>: the enumerator whose code the byte is, if
  any, in the order of the \<^verbatim>\<open>case\<close> labels.
\<close>

definition type_of_tag :: "tags \<Rightarrow> byte \<Rightarrow> Type option" where
  "type_of_tag tg b =
     (if b = tg kTypeInt32 then Some kTypeInt32
      else if b = tg kTypeInt64 then Some kTypeInt64
      else if b = tg kTypeDouble then Some kTypeDouble
      else if b = tg kTypeRate then Some kTypeRate
      else if b = tg kTypeCString then Some kTypeCString
      else if b = tg kTypeNone then Some kTypeNone
      else None)"

text \<open>
  \<^verbatim>\<open>Prop::readFromByteString\<close>: status, the property as the call leaves it, and the read
  pointer.  First the \<^verbatim>\<open>switch\<close> on the type, which reads the payload into the property
  \<open>p2\<close> whose name is already set and whose old string value, if it had one, is freed and
  its pointer nulled (\<open>NoValue\<close>); when a payload cannot be read the name and type are
  already changed.
\<close>

definition read_payload ::
  "tags \<Rightarrow> Prop \<Rightarrow> byte \<Rightarrow> memory \<Rightarrow> nat \<Rightarrow> nat \<Rightarrow> status_t \<times> Prop \<times> nat" where
  "read_payload tg p2 type mem rd3 rmax =
     (case type_of_tag tg type of
        Some kTypeInt32 \<Rightarrow>
          (case extract_val mem rd3 rmax of
             Inl e \<Rightarrow> (e, p2\<lparr>mType := kTypeInt32\<rparr>, rd3)
           | Inr (v, rd4) \<Rightarrow> (NO_ERROR, p2\<lparr>mType := kTypeInt32, u := Int32Value v\<rparr>, rd4))
      | Some kTypeInt64 \<Rightarrow>
          (case extract_val mem rd3 rmax of
             Inl e \<Rightarrow> (e, p2\<lparr>mType := kTypeInt64\<rparr>, rd3)
           | Inr (v, rd4) \<Rightarrow> (NO_ERROR, p2\<lparr>mType := kTypeInt64, u := Int64Value v\<rparr>, rd4))
      | Some kTypeDouble \<Rightarrow>
          (case extract_val mem rd3 rmax of
             Inl e \<Rightarrow> (e, p2\<lparr>mType := kTypeDouble\<rparr>, rd3)
           | Inr (v, rd4) \<Rightarrow> (NO_ERROR, p2\<lparr>mType := kTypeDouble, u := DoubleValue v\<rparr>, rd4))
      | Some kTypeRate \<Rightarrow>
          (case extract_val mem rd3 rmax of
             Inl e \<Rightarrow> (e, p2\<lparr>mType := kTypeRate\<rparr>, rd3)
           | Inr (a, rd4) \<Rightarrow>
               (case extract_val mem rd4 rmax of
                  Inl e \<Rightarrow>
                    (e, p2\<lparr>mType := kTypeRate, u := RateValue a (rate_second (u p2))\<rparr>, rd4)
                | Inr (b, rd5) \<Rightarrow>
                    (NO_ERROR, p2\<lparr>mType := kTypeRate, u := RateValue a b\<rparr>, rd5)))
      | Some kTypeCString \<Rightarrow>
          (case extract_cstr mem rd3 rmax of
             Inl e \<Rightarrow> (e, p2\<lparr>mType := kTypeNone\<rparr>, rd3)
           | Inr (s, rd4) \<Rightarrow> (NO_ERROR, p2\<lparr>mType := kTypeCString, u := CStringValue s\<rparr>, rd4))
      | Some kTypeNone \<Rightarrow> (NO_ERROR, p2\<lparr>mType := kTypeNone\<rparr>, rd3)
      | None \<Rightarrow> (BAD_VALUE, p2\<lparr>mType := kTypeNone\<rparr>, rd3))"

definition Prop_readFromByteString ::
  "tags \<Rightarrow> Prop \<Rightarrow> memory \<Rightarrow> nat \<Rightarrow> nat \<Rightarrow> status_t \<times> Prop \<times> nat" where
  "Prop_readFromByteString tg p mem rd rmax =
     (case (extract_val mem rd rmax :: status_t + (16 word \<times> nat)) of
        Inl e \<Rightarrow> (e, p, rd)
      | Inr (len, rd1) \<Rightarrow>
     (case (extract_val mem rd1 rmax :: status_t + (8 word \<times> nat)) of
        Inl e \<Rightarrow> (e, p, rd1)
      | Inr (type, rd2) \<Rightarrow>
     (case extract_cstr mem rd2 rmax of
        Inl e \<Rightarrow> (e, p, rd2)
      | Inr (name, rd3) \<Rightarrow>
     (let p1 = p\<lparr>mName := Some name\<rparr>;
          p2 = (if mType p1 = kTypeCString then p1\<lparr>u := NoValue\<rparr> else p1)
      in read_payload tg p2 type mem rd3 rmax))))"

text \<open>The fixed header fields, read in order; \<open>None\<close> when one of the reads fails.\<close>

record wire_header =
  h_size :: "32 word"
  h_header_size :: "32 word"
  h_version :: "16 word"
  h_key_size :: "16 word"
  h_key :: cstring
  h_pid :: "32 word"
  h_uid :: "32 word"
  h_timestamp :: "64 word"
  h_read :: nat

definition extract_header :: "memory \<Rightarrow> nat \<Rightarrow> wire_header option" where
  "extract_header mem readend =
     (case (extract_val mem 0 readend :: status_t + (32 word \<times> nat)) of
        Inl e \<Rightarrow> None
      | Inr (sz, r1) \<Rightarrow>
     (case (extract_val mem r1 readend :: status_t + (32 word \<times> nat)) of
        Inl e \<Rightarrow> None
      | Inr (header_size, r2) \<Rightarrow>
     (case (extract_val mem r2 readend :: status_t + (16 word \<times> nat)) of
        Inl e \<Rightarrow> None
      | Inr (version, r3) \<Rightarrow>
     (case (extract_val mem r3 readend :: status_t + (16 word \<times> nat)) of
        Inl e \<Rightarrow> None
      | Inr (key_size, r4) \<Rightarrow>
     (case extract_cstr mem r4 readend of
        Inl e \<Rightarrow> None
      | Inr (key, r5) \<Rightarrow>
     (case (extract_val mem r5 readend :: status_t + (32 word \<times> nat)) of
        Inl e \<Rightarrow> None
      | Inr (pid, r6) \<Rightarrow>
     (case (extract_val mem r6 readend :: status_t + (32 word \<times> nat)) of
        Inl e \<Rightarrow> None
      | Inr (uid, r7) \<Rightarrow>
     (case (extract_val mem r7 readend :: status_t + (64 word \<times> nat)) of
        Inl e \<Rightarrow> None
      | Inr (timestamp, r8) \<Rightarrow>
          Some \<lparr>h_size = sz, h_header_size = header_size, h_version = version,
                h_key_size = key_size, h_key = key, h_pid = pid, h_uid = uid,
                h_timestamp = timestamp, h_read = r8\<rparr>))))))))"

text \<open>
  The loop over the property records.  The outer \<open>None\<close> is the call through the null
  pointer that \<^verbatim>\<open>allocateProp()\<close> returns when the store cannot grow: the source does
  not test it, and the behaviour is undefined.
\<close>

fun read_props ::
  "tags \<Rightarrow> allocator \<Rightarrow> memory \<Rightarrow> nat \<Rightarrow> nat \<Rightarrow> Item \<Rightarrow> nat \<Rightarrow> (status_t \<times> Item) option" where
  "read_props tg al mem readend 0 it rd = Some (NO_ERROR, it)"
| "read_props tg al mem readend (Suc n) it rd =
     (case allocateProp0 al it of
        None \<Rightarrow> None
      | Some (j, it') \<Rightarrow>
          (case Prop_readFromByteString tg (mProps it' ! j) mem rd readend of
             (NO_ERROR, p, rd') \<Rightarrow>
               read_props tg al mem readend n (it'\<lparr>mProps := (mProps it')[j := p]\<rparr>) rd'
           | (e, p, rd') \<Rightarrow>
               Some (INVALID_OPERATION, it'\<lparr>mProps := (mProps it')[j := p]\<rparr>)))"

text \<open>\<^verbatim>\<open>Item::readFromByteString\<close>.  The flag says whether \<^verbatim>\<open>bufferptr\<close> is null; \<open>len\<close> is
  the argument \<^verbatim>\<open>length\<close>.\<close>

definition readFromByteString ::
  "tags \<Rightarrow> allocator \<Rightarrow> Item \<Rightarrow> bool \<Rightarrow> memory \<Rightarrow> nat \<Rightarrow> (status_t \<times> Item) option" where
  "readFromByteString tg al it bufferptr_null mem len =
     (if bufferptr_null then Some (BAD_VALUE, it)
      else (case extract_header mem len of
              None \<Rightarrow> Some (INVALID_OPERATION, it)
            | Some h \<Rightarrow>
                if unat (h_size h) > len
                   \<or> strlen (h_key h) + 1 \<noteq> unat (h_key_size h)
                   \<or> unat (h_header_size h) > unat (h_size h)
                then Some (INVALID_OPERATION, it)
                else (let it1 = it\<lparr>mKey := h_key h\<rparr>;
                          pos = h_read h
                      in if pos > unat (h_header_size h) then Some (INVALID_OPERATION, it1)
                         else (let rd = (if pos < unat (h_header_size h)
                                         then h_read h + (unat (h_header_size h) - pos)
                                         else h_read h)
                               in case (extract_val mem rd len :: status_t + (32 word \<times> nat)) of
                                    Inl e \<Rightarrow> Some (INVALID_OPERATION, it1)
                                  | Inr (propCount, rd') \<Rightarrow>
                                      read_props tg al mem len (unat propCount)
                                        (it1\<lparr>mPid := h_pid h, mUid := h_uid h,
                                             mTimestamp := h_timestamp h\<rparr>) rd'))))"

subsection \<open>The layout the encoder produces\<close>

text \<open>
  A property the encoder can measure: it has a name, and a string value when its type
  is string.  \<open>encodable\<close> says so of every entry in use.
\<close>

definition prop_strings_valid :: "Prop \<Rightarrow> bool" where
  "prop_strings_valid p =
     (mName p \<noteq> None \<and> (if mType p = kTypeCString then cstringValue (u p) \<noteq> None else True))"

definition encodable :: "Item \<Rightarrow> bool" where
  "encodable it = list_all prop_strings_valid (props it)"

text \<open>
  The bytes of one property record and of a whole item, as plain concatenations, and
  their sizes.  They are shown below to be what the encoder computes and writes for an
  encodable item when the sizes fit.  \<open>wire_tag\<close> is the type code that ends up on the
  wire.
\<close>

definition name_bytes :: "Prop \<Rightarrow> byte list" where
  "name_bytes p = (case mName p of Some name \<Rightarrow> name | None \<Rightarrow> [])"

definition string_bytes :: "Prop \<Rightarrow> byte list" where
  "string_bytes p = (case cstringValue (u p) of Some s \<Rightarrow> s | None \<Rightarrow> [])"

definition wire_tag :: "tags \<Rightarrow> Type \<Rightarrow> byte" where
  "wire_tag tg t = (case t of kTypeNone \<Rightarrow> tg kTypeCString | _ \<Rightarrow> tg t)"

definition wire_payload :: "Prop \<Rightarrow> byte list" where
  "wire_payload p =
     (case mType p of
        kTypeInt32 \<Rightarrow> word_bytes (int32Value (u p))
      | kTypeInt64 \<Rightarrow> word_bytes (int64Value (u p))
      | kTypeDouble \<Rightarrow> word_bytes (doubleValue (u p))
      | kTypeRate \<Rightarrow> word_bytes (rate_first (u p)) @ word_bytes (rate_second (u p))
      | kTypeCString \<Rightarrow> string_bytes p @ [0]
      | kTypeNone \<Rightarrow> [])"

definition record_size :: "Prop \<Rightarrow> nat" where
  "record_size p = 2 + 1 + length (name_bytes p) + 1 + length (wire_payload p)"

definition wire_prop :: "tags \<Rightarrow> Prop \<Rightarrow> byte list" where
  "wire_prop tg p =
     word_bytes (of_nat (record_size p) :: 16 word) @ [wire_tag tg (mType p)]
       @ name_bytes p @ [0] @ wire_payload p"

definition wire_head :: "Item \<Rightarrow> nat \<Rightarrow> byte list" where
  "wire_head it sz =
     word_bytes (of_nat sz :: 32 word)
       @ word_bytes (of_nat (header_size_of it) :: 32 word)
       @ word_bytes (0 :: 16 word)
       @ word_bytes (of_nat (strlen (c_str (mKey it)) + 1) :: 16 word)
       @ c_str (mKey it) @ [0]
       @ word_bytes (mPid it) @ word_bytes (mUid it) @ word_bytes (mTimestamp it)
       @ word_bytes (of_nat (mPropCount it) :: 32 word)"

definition wire :: "tags \<Rightarrow> Item \<Rightarrow> nat \<Rightarrow> byte list" where
  "wire tg it sz = wire_head it sz @ concat (map (wire_prop tg) (props it))"

definition total_size :: "Item \<Rightarrow> nat" where
  "total_size it = header_size_of it + 4 + sum_list (map record_size (props it))"

section \<open>The parcel decoder\<close>

text \<open>
  \<^verbatim>\<open>Parcel\<close> belongs to the binder library, outside this repository.  The decoder uses
  four of its read operations; they are a parameter \<open>ops\<close> of the model, over any type
  \<open>'p\<close> of parcel states.  A read returns the status or the value, and the parcel with
  its position advanced; \<^verbatim>\<open>readCString\<close> returns a string or null.
\<close>

record 'p parcel_ops =
  readInt32 :: "'p \<Rightarrow> (status_t + 32 word) \<times> 'p"
  readInt64 :: "'p \<Rightarrow> (status_t + 64 word) \<times> 'p"
  readDouble :: "'p \<Rightarrow> (status_t + 64 word) \<times> 'p"
  readCString :: "'p \<Rightarrow> cstring option \<times> 'p"

text \<open>
  The \<^verbatim>\<open>switch\<close> of \<^verbatim>\<open>Prop::readFromParcel\<close> on the \<^verbatim>\<open>int32_t\<close> type code, in the order of
  its \<^verbatim>\<open>case\<close> labels; \<^verbatim>\<open>kTypeNone\<close> has no label there.
\<close>

definition type_of_code :: "tags \<Rightarrow> 32 word \<Rightarrow> Type option" where
  "type_of_code tg c =
     (if c = ucast (tg kTypeInt32) then Some kTypeInt32
      else if c = ucast (tg kTypeInt64) then Some kTypeInt64
      else if c = ucast (tg kTypeDouble) then Some kTypeDouble
      else if c = ucast (tg kTypeCString) then Some kTypeCString
      else if c = ucast (tg kTypeRate) then Some kTypeRate
      else None)"

text \<open>
  \<^verbatim>\<open>Prop::readFromParcel\<close>.  Modelled from the spec: \<^verbatim>\<open>set\<close>, of the missing header, stores
  the value and its type together (3, invariants).
\<close>

definition Prop_readFromParcel ::
  "tags \<Rightarrow> 'p parcel_ops \<Rightarrow> Prop \<Rightarrow> 'p \<Rightarrow> status_t \<times> Prop \<times> 'p" where
  "Prop_readFromParcel tg ops p data =
     (case readCString ops data of
        (None, d1) \<Rightarrow> (BAD_VALUE, p, d1)
      | (Some key, d1) \<Rightarrow>
     (case readInt32 ops d1 of
        (Inl e, d2) \<Rightarrow> (e, p, d2)
      | (Inr type, d2) \<Rightarrow>
     (case type_of_code tg type of
        Some kTypeInt32 \<Rightarrow>
          (case readInt32 ops d2 of
             (Inl e, d3) \<Rightarrow> (e, p, d3)
           | (Inr v, d3) \<Rightarrow>
               (NO_ERROR, (setName (p\<lparr>u := Int32Value v\<rparr>) key)\<lparr>mType := kTypeInt32\<rparr>, d3))
      | Some kTypeInt64 \<Rightarrow>
          (case readInt64 ops d2 of
             (Inl e, d3) \<Rightarrow> (e, p, d3)
           | (Inr v, d3) \<Rightarrow>
               (NO_ERROR, (setName (p\<lparr>u := Int64Value v\<rparr>) key)\<lparr>mType := kTypeInt64\<rparr>, d3))
      | Some kTypeDouble \<Rightarrow>
          (case readDouble ops d2 of
             (Inl e, d3) \<Rightarrow> (e, p, d3)
           | (Inr v, d3) \<Rightarrow>
               (NO_ERROR, (setName (p\<lparr>u := DoubleValue v\<rparr>) key)\<lparr>mType := kTypeDouble\<rparr>, d3))
      | Some kTypeCString \<Rightarrow>
          (case readCString ops d2 of
             (None, d3) \<Rightarrow> (BAD_VALUE, p, d3)
           | (Some s, d3) \<Rightarrow>
               (NO_ERROR,
                (setName (p\<lparr>mType := kTypeCString, u := CStringValue s\<rparr>) key)
                  \<lparr>mType := kTypeCString\<rparr>, d3))
      | Some kTypeRate \<Rightarrow>
          (case readInt64 ops d2 of
             (Inl e, d3) \<Rightarrow> (e, p, d3)
           | (Inr a, d3) \<Rightarrow>
               (case readInt64 ops d3 of
                  (Inl e, d4) \<Rightarrow> (e, p, d4)
                | (Inr b, d4) \<Rightarrow>
                    (NO_ERROR,
                     (setName (p\<lparr>mType := kTypeRate, u := RateValue a b\<rparr>) key)
                       \<lparr>mType := kTypeRate\<rparr>, d4)))
      | Some kTypeNone \<Rightarrow> (BAD_VALUE, p, d2)
      | None \<Rightarrow> (BAD_VALUE, p, d2))))"

text \<open>
  The loop of \<^verbatim>\<open>readFromParcel0\<close>; as in the byte decoder, the outer \<open>None\<close> is the call
  through a null \<^verbatim>\<open>prop\<close>.
\<close>

fun read_parcel_props ::
  "tags \<Rightarrow> 'p parcel_ops \<Rightarrow> allocator \<Rightarrow> nat \<Rightarrow> Item \<Rightarrow> 'p \<Rightarrow> (status_t \<times> Item \<times> 'p) option" where
  "read_parcel_props tg ops al 0 it data = Some (NO_ERROR, it, data)"
| "read_parcel_props tg ops al (Suc n) it data =
     (case allocateProp0 al it of
        None \<Rightarrow> None
      | Some (j, it') \<Rightarrow>
          (case Prop_readFromParcel tg ops (mProps it' ! j) data of
             (NO_ERROR, p, d) \<Rightarrow>
               read_parcel_props tg ops al n (it'\<lparr>mProps := (mProps it')[j := p]\<rparr>) d
           | (e, p, d) \<Rightarrow> Some (e, it'\<lparr>mProps := (mProps it')[j := p]\<rparr>, d)))"

definition readFromParcel0 ::
  "tags \<Rightarrow> 'p parcel_ops \<Rightarrow> allocator \<Rightarrow> Item \<Rightarrow> 'p \<Rightarrow> (status_t \<times> Item \<times> 'p) option" where
  "readFromParcel0 tg ops al it data =
     (case readCString ops data of (s, d1) \<Rightarrow>
      let it1 = it\<lparr>mKey := (case s of None \<Rightarrow> [] | Some k \<Rightarrow> k)\<rparr> in
     (case readInt32 ops d1 of
        (Inl e, d2) \<Rightarrow> Some (e, it1, d2)
      | (Inr pid, d2) \<Rightarrow>
     (case readInt32 ops d2 of
        (Inl e, d3) \<Rightarrow> Some (e, it1, d3)
      | (Inr uid, d3) \<Rightarrow>
      let it2 = it1\<lparr>mPid := pid, mUid := uid\<rparr> in
     (case readCString ops d3 of (s', d4) \<Rightarrow>
      let it3 = it2\<lparr>mPkgName := (case s' of None \<Rightarrow> [] | Some k \<Rightarrow> k)\<rparr> in
     (case readInt64 ops d4 of
        (Inl e, d5) \<Rightarrow> Some (e, it3, d5)
      | (Inr version, d5) \<Rightarrow>
     (case readInt64 ops d5 of
        (Inl e, d6) \<Rightarrow> Some (e, it3, d6)
      | (Inr timestamp, d6) \<Rightarrow>
     (case readInt32 ops d6 of
        (Inl e, d7) \<Rightarrow> Some (e, it3, d7)
      | (Inr cnt, d7) \<Rightarrow>
          if sint cnt < 0 then Some (BAD_VALUE, it3, d7)
          else read_parcel_props tg ops al (nat (sint cnt))
                 (it3\<lparr>mPkgVersionCode := version, mTimestamp := timestamp\<rparr>) d7)))))))"

definition readFromParcel ::
  "tags \<Rightarrow> 'p parcel_ops \<Rightarrow> allocator \<Rightarrow> Item \<Rightarrow> 'p \<Rightarrow> (status_t \<times> Item \<times> 'p) option" where
  "readFromParcel tg ops al it data =
     (case readInt32 ops data of
        (Inl e, d) \<Rightarrow> Some (e, it, d)
      | (Inr version, d) \<Rightarrow>
          if version = 0 then readFromParcel0 tg ops al it d
          else Some (INVALID_OPERATION, it, d))"

text \<open>
  A parcel for the examples: the list of the values still to be read.  A read of the
  wrong kind, or from the empty list, fails.
\<close>

datatype token = TInt32 "32 word" | TInt64 "64 word" | TDouble "64 word" | TCString cstring

definition token_ops :: "token list parcel_ops" where
  "token_ops =
     \<lparr>readInt32 = (\<lambda>d. case d of TInt32 v # r \<Rightarrow> (Inr v, r) | _ \<Rightarrow> (Inl BAD_VALUE, d)),
      readInt64 = (\<lambda>d. case d of TInt64 v # r \<Rightarrow> (Inr v, r) | _ \<Rightarrow> (Inl BAD_VALUE, d)),
      readDouble = (\<lambda>d. case d of TDouble v # r \<Rightarrow> (Inr v, r) | _ \<Rightarrow> (Inl BAD_VALUE, d)),
      readCString = (\<lambda>d. case d of TCString s # r \<Rightarrow> (Some s, r) | _ \<Rightarrow> (None, d))\<rparr>"

section \<open>Example items\<close>

definition prop_a :: Prop where
  "prop_a = \<lparr>mName = Some [97], mType = kTypeInt32, u = Int32Value 1\<rparr>"
definition prop_b :: Prop where
  "prop_b = \<lparr>mName = Some [98], mType = kTypeInt64, u = Int64Value 2\<rparr>"
definition prop_c :: Prop where
  "prop_c = \<lparr>mName = Some [99], mType = kTypeCString, u = CStringValue [120, 121]\<rparr>"

definition item_abc :: Item where
  "item_abc = \<lparr>mKey = [107], mPid = 1, mUid = 2, mPkgName = [], mPkgVersionCode = 0,
     mTimestamp = 5, mPropCount = 3, mProps = [prop_a, prop_b, prop_c, Prop_default]\<rparr>"

definition prop_a2 :: Prop where
  "prop_a2 = \<lparr>mName = Some [97], mType = kTypeInt32, u = Int32Value 2\<rparr>"

definition item_aa :: Item where
  "item_aa = \<lparr>mKey = [107], mPid = 1, mUid = 2, mPkgName = [], mPkgVersionCode = 0,
     mTimestamp = 5, mPropCount = 2, mProps = [prop_a, prop_a2]\<rparr>"


definition prop_a9 :: Prop where
  "prop_a9 = \<lparr>mName = Some [97], mType = kTypeInt64, u = Int64Value 9\<rparr>"
definition prop_anon :: Prop where
  "prop_anon = \<lparr>mName = Some [], mType = kTypeInt32, u = Int32Value 7\<rparr>"
definition prop_d :: Prop where
  "prop_d = \<lparr>mName = Some [100], mType = kTypeRate, u = RateValue 3 4\<rparr>"

definition item_in :: Item where
  "item_in = \<lparr>mKey = [107, 50], mPid = 0, mUid = 0, mPkgName = [], mPkgVersionCode = 0,
     mTimestamp = 0, mPropCount = 3, mProps = [prop_a9, prop_anon, prop_d]\<rparr>"

definition always :: allocator where
  "always n = True"

definition never :: allocator where
  "never n = False"

definition prop_n :: Prop where
  "prop_n = \<lparr>mName = Some [110], mType = kTypeNone, u = NoValue\<rparr>"

definition item_none :: Item where
  "item_none = \<lparr>mKey = [107], mPid = 1, mUid = 2, mPkgName = [], mPkgVersionCode = 0,
     mTimestamp = 5, mPropCount = 1, mProps = [prop_n]\<rparr>"

text \<open>An item with one property of type None whose name has \<open>n\<close> bytes.\<close>

definition item_named :: "nat \<Rightarrow> Item" where
  "item_named n = \<lparr>mKey = [107], mPid = 1, mUid = 2, mPkgName = [], mPkgVersionCode = 0,
     mTimestamp = 5, mPropCount = 1,
     mProps = [\<lparr>mName = Some (replicate n 97), mType = kTypeNone, u = NoValue\<rparr>]\<rparr>"

text \<open>An item with one string property named \<open>s\<close> whose value has \<open>n\<close> bytes.\<close>

definition item_valued :: "nat \<Rightarrow> Item" where
  "item_valued n = \<lparr>mKey = [107], mPid = 1, mUid = 2, mPkgName = [], mPkgVersionCode = 0,
     mTimestamp = 5, mPropCount = 1,
     mProps = [\<lparr>mName = Some [115], mType = kTypeCString, u = CStringValue (replicate n 97)\<rparr>]\<rparr>"

text \<open>
  An item whose second entry in use was allocated and never named: what a decode leaves
  when the record of that entry cannot be read.
\<close>

definition item_unnamed :: Item where
  "item_unnamed = \<lparr>mKey = [107], mPid = 1, mUid = 2, mPkgName = [], mPkgVersionCode = 0,
     mTimestamp = 5, mPropCount = 2, mProps = [prop_a, Prop_default]\<rparr>"

section \<open>Example buffers and parcels\<close>

definition empty_item :: Item where
  "empty_item = \<lparr>mKey = [], mPid = 0, mUid = 0, mPkgName = [], mPkgVersionCode = 0,
     mTimestamp = 0, mPropCount = 0, mProps = []\<rparr>"

definition zeros :: memory where
  "zeros i = 0"

definition ones :: memory where
  "ones i = 1"

definition buf_abc :: "byte list" where
  "buf_abc = [64, 0, 0, 0, 30, 0, 0, 0, 0, 0, 2, 0, 107, 0, 1, 0, 0, 0, 2, 0, 0, 0,
             5, 0, 0, 0, 0, 0, 0, 0, 3, 0, 0, 0, 9, 0, 1, 97, 0, 1, 0, 0, 0, 13, 0,
             2, 98, 0, 2, 0, 0, 0, 0, 0, 0, 0, 8, 0, 4, 99, 0, 120, 121, 0]"

text \<open>An item holding the string property \<open>c = "xy"\<close> only.\<close>

definition item_xy :: Item where
  "item_xy = \<lparr>mKey = [107], mPid = 1, mUid = 2, mPkgName = [], mPkgVersionCode = 0,
     mTimestamp = 5, mPropCount = 1, mProps = [prop_c]\<rparr>"

text \<open>The encodings of \<open>item_aa\<close> and \<open>item_none\<close>.\<close>

definition buf_aa :: "byte list" where
  "buf_aa = [52, 0, 0, 0, 30, 0, 0, 0, 0, 0, 2, 0, 107, 0, 1, 0, 0, 0, 2, 0, 0, 0,
             5, 0, 0, 0, 0, 0, 0, 0, 2, 0, 0, 0, 9, 0, 1, 97, 0, 1, 0, 0, 0, 9, 0,
             1, 97, 0, 2, 0, 0, 0]"

definition buf_none :: "byte list" where
  "buf_none = [39, 0, 0, 0, 30, 0, 0, 0, 0, 0, 2, 0, 107, 0, 1, 0, 0, 0, 2, 0, 0, 0,
               5, 0, 0, 0, 0, 0, 0, 0, 1, 0, 0, 0, 5, 0, 4, 110, 0]"

text \<open>
  The encoding of \<open>item_xy\<close> without its last byte, the terminator of the string, and with
  the total size lowered to 41 accordingly.
\<close>

definition buf_unterminated :: "byte list" where
  "buf_unterminated = [41, 0, 0, 0, 30, 0, 0, 0, 0, 0, 2, 0, 107, 0, 1, 0, 0, 0, 2, 0, 0, 0,
             5, 0, 0, 0, 0, 0, 0, 0, 1, 0, 0, 0, 8, 0, 4, 99, 0, 120, 121]"

text \<open>The encoding of \<open>item_abc\<close> with two bytes of padding at the end of the header.\<close>

definition buf_padded :: "byte list" where
  "buf_padded = (take 30 buf_abc @ [170, 187] @ drop 30 buf_abc)[0 := 66, 4 := 32]"

text \<open>A parcel of version 0 with two properties named \<open>a\<close>, and a parcel of version 1.\<close>

definition parcel_aa :: "token list" where
  "parcel_aa = [TInt32 0, TCString [107], TInt32 1, TInt32 2, TCString [], TInt64 0, TInt64 5,
     TInt32 2, TCString [97], TInt32 1, TInt32 1, TCString [97], TInt32 1, TInt32 2]"

definition parcel_v1 :: "token list" where
  "parcel_v1 = TInt32 1 # tl parcel_aa"

text \<open>What matters of the result of a decoder: status, key, entries in use.\<close>

definition outcome :: "(status_t \<times> Item) option \<Rightarrow> (status_t \<times> byte list \<times> Prop list) option" where
  "outcome r = map_option (\<lambda>(st, it). (st, mKey it, props it)) r"

text \<open>
  The encoding of an item with the property \<open>a\<close> only, its property count raised to 2:
  the record of the second property is missing.
\<close>

definition buf_short :: "byte list" where
  "buf_short = [43, 0, 0, 0, 30, 0, 0, 0, 0, 0, 2, 0, 107, 0, 1, 0, 0, 0, 2, 0, 0, 0,
             5, 0, 0, 0, 0, 0, 0, 0, 2, 0, 0, 0, 9, 0, 1, 97, 0, 1, 0, 0, 0]"

section \<open>Verification: the property store\<close>

lemmas ex_defs = prop_a_def prop_b_def prop_c_def item_abc_def Prop_default_def Prop_clear_def
  props_def wf_item_def findPropIndex_def findPropIndex_loop.simps isNamed_def

lemma findPropIndex_loop_takeWhile:
  "wf_item it \<Longrightarrow> i \<le> mPropCount it \<Longrightarrow>
   findPropIndex_loop it name i = i + length (takeWhile (\<lambda>p. mName p \<noteq> Some name) (drop i (props it)))"
proof (induction it name i rule: findPropIndex_loop.induct)
  case (1 it name i)
  show ?case
  proof (cases "i < mPropCount it")
    case True
    then have d: "drop i (props it) = (mProps it ! i) # drop (Suc i) (props it)"
      using 1(2) by (simp add: props_def wf_item_def Cons_nth_drop_Suc [symmetric])
    show ?thesis
    proof (cases "isNamed (mProps it ! i) name")
      case True
      with \<open>i < mPropCount it\<close> show ?thesis
        by (subst findPropIndex_loop.simps) (simp add: d isNamed_def)
    next
      case False
      with \<open>i < mPropCount it\<close> 1 show ?thesis
        by (subst findPropIndex_loop.simps) (simp add: d isNamed_def)
    qed
  next
    case False
    with 1 show ?thesis
      by (subst findPropIndex_loop.simps) (simp add: props_def)
  qed
qed

lemma findPropIndex_takeWhile:
  "wf_item it \<Longrightarrow> findPropIndex it name = length (takeWhile (\<lambda>p. mName p \<noteq> Some name) (props it))"
  by (simp add: findPropIndex_def findPropIndex_loop_takeWhile)

lemma length_props: "wf_item it \<Longrightarrow> length (props it) = mPropCount it"
  by (simp add: props_def wf_item_def)

lemma length_takeWhile_less_conv:
  "length (takeWhile P xs) < length xs \<longleftrightarrow> (\<exists>x\<in>set xs. \<not> P x)"
  by (induction xs) auto

lemma findPropIndex_found:
  "wf_item it \<Longrightarrow> findPropIndex it name < mPropCount it \<longleftrightarrow> (\<exists>p\<in>set (props it). mName p = Some name)"
  using length_takeWhile_less_conv [of "\<lambda>p. mName p \<noteq> Some name" "props it"]
  by (simp add: findPropIndex_takeWhile length_props)

lemma findPropIndex_le: "wf_item it \<Longrightarrow> findPropIndex it name \<le> mPropCount it"
  using length_takeWhile_le [of "\<lambda>p. mName p \<noteq> Some name" "props it"]
  by (simp add: findPropIndex_takeWhile length_props)

lemma findPropIndex_name:
  assumes w: "wf_item it" and f: "findPropIndex it name < mPropCount it"
  shows "mName (mProps it ! findPropIndex it name) = Some name"
proof -
  let ?P = "\<lambda>p. mName p \<noteq> Some name"
  let ?n = "length (takeWhile ?P (props it))"
  have n: "findPropIndex it name = ?n"
    using w by (rule findPropIndex_takeWhile)
  have "?n < length (props it)"
    using f w unfolding n by (simp only: length_props)
  then have "\<not> ?P (props it ! ?n)"
    by (rule nth_length_takeWhile)
  moreover have "props it ! ?n = mProps it ! ?n"
    using f unfolding n by (simp add: props_def)
  ultimately show ?thesis unfolding n by simp
qed

lemma findPropIndex_first:
  "wf_item it \<Longrightarrow> j < findPropIndex it name \<Longrightarrow> mName (mProps it ! j) \<noteq> Some name"
proof -
  assume w: "wf_item it" and j: "j < findPropIndex it name"
  let ?P = "\<lambda>p. mName p \<noteq> Some name"
  from j w have jl: "j < length (takeWhile ?P (props it))"
    by (simp add: findPropIndex_takeWhile)
  then have "takeWhile ?P (props it) ! j \<in> set (takeWhile ?P (props it))"
    by (rule nth_mem)
  then have "?P (takeWhile ?P (props it) ! j)"
    by (rule set_takeWhileD [THEN conjunct2])
  moreover have "takeWhile ?P (props it) ! j = props it ! j"
    using jl by (rule takeWhile_nth)
  moreover have "j < mPropCount it"
    using j findPropIndex_le [OF w, of name] by simp
  ultimately show ?thesis by (simp add: props_def)
qed

text \<open>Dropping entry i by moving the last entry into its place.\<close>

lemma mset_take_move_last:
  assumes "i < c - 1" "c \<le> length xs"
  shows "mset (take (c - 1) (xs[i := xs ! (c - 1)])) = mset (take c xs) - {# xs ! i #}"
proof -
  let ?ls = "take (c - 1) xs"
  have c: "take c xs = ?ls @ [xs ! (c - 1)]"
    using assms take_Suc_conv_app_nth [of "c - 1" xs] by simp
  have il: "i < length ?ls" using assms by simp
  then obtain M where M: "mset ?ls = add_mset (?ls ! i) M"
    by (metis insert_DiffM nth_mem_mset)
  have li: "?ls ! i = xs ! i" using il by simp
  have "take (c - 1) (xs[i := xs ! (c - 1)]) = ?ls[i := xs ! (c - 1)]"
    by (simp add: take_update_swap)
  then have "mset (take (c - 1) (xs[i := xs ! (c - 1)])) = add_mset (xs ! (c - 1)) (mset ?ls - {# ?ls ! i #})"
    using il by (simp add: mset_update)
  also have "\<dots> = add_mset (xs ! (c - 1)) M"
    by (simp only: M add_mset_remove_trivial)
  also have "\<dots> = mset (take c xs) - {# xs ! i #}"
    unfolding c using M li by simp
  finally show ?thesis .
qed

lemma mset_take_pred:
  assumes "0 < c" "c \<le> length xs"
  shows "mset (take (c - 1) xs) = mset (take c xs) - {# xs ! (c - 1) #}"
proof -
  have "take c xs = take (c - 1) xs @ [xs ! (c - 1)]"
    using assms take_Suc_conv_app_nth [of "c - 1" xs] by simp
  then have "mset (take c xs) = add_mset (xs ! (c - 1)) (mset (take (c - 1) xs))"
    by (simp only: mset_append mset.simps union_mset_add_mset_right add.right_neutral)
  then show ?thesis by (simp only: add_mset_remove_trivial)
qed

text \<open>
  C7.  When a property named \<open>name\<close> is in use, \<^verbatim>\<open>removeProp\<close> returns true, the count
  drops by one and the entries in use are, as a multiset, the original ones without one
  property \<open>P\<close> of that name (the first); the order may change.  When no property in use
  has the name, \<^verbatim>\<open>removeProp\<close> returns false and the item is unchanged.
\<close>

theorem removeProp_swap_remove:
  assumes "wf_item it"
  shows "((\<exists>p\<in>set (props it). mName p = Some name) \<longrightarrow>
            fst (removeProp it name) \<and>
            wf_item (snd (removeProp it name)) \<and>
            mPropCount (snd (removeProp it name)) = mPropCount it - 1 \<and>
            (\<exists>P. P \<in> set (props it) \<and> mName P = Some name \<and>
                 mset (props (snd (removeProp it name))) = mset (props it) - {# P #})) \<and>
         ((\<forall>p\<in>set (props it). mName p \<noteq> Some name) \<longrightarrow> removeProp it name = (False, it))"
proof (intro conjI impI)
  assume "\<forall>p\<in>set (props it). mName p \<noteq> Some name"
  then have "\<not> findPropIndex it name < mPropCount it"
    using findPropIndex_found [OF assms, of name] by blast
  then show "removeProp it name = (False, it)"
    by (simp add: removeProp_def)
next
  assume "\<exists>p\<in>set (props it). mName p = Some name"
  then have f: "findPropIndex it name < mPropCount it"
    using findPropIndex_found [OF assms, of name] by blast
  let ?i = "findPropIndex it name"
  let ?c = "mPropCount it"
  have cl: "?c \<le> length (mProps it)" using assms by (simp add: wf_item_def)
  show "fst (removeProp it name)" using f by (simp add: removeProp_def Let_def)
  show "wf_item (snd (removeProp it name))"
    using f cl by (auto simp add: removeProp_def Let_def wf_item_def swap_at_def)
  show "mPropCount (snd (removeProp it name)) = mPropCount it - 1"
    using f by (simp add: removeProp_def Let_def)
  have mem: "mProps it ! ?i \<in> set (props it)"
    using f cl by (simp add: props_def in_set_conv_nth) (metis min.absorb2 nth_take)
  have nm: "mName (mProps it ! ?i) = Some name"
    using findPropIndex_name [OF assms f] .
  have "mset (props (snd (removeProp it name))) = mset (props it) - {# mProps it ! ?i #}"
  proof (cases "?i = ?c - 1")
    case True
    then have "props (snd (removeProp it name)) = take (?c - 1) (mProps it)"
      using f by (simp add: removeProp_def Let_def props_def)
    then show ?thesis
      using mset_take_pred [of ?c "mProps it"] f cl True by (simp add: props_def)
  next
    case False
    then have lt: "?i < ?c - 1" using f by simp
    let ?ps = "(mProps it)[?i := Prop_clear (mProps it ! ?i)]"
    have "props (snd (removeProp it name)) = take (?c - 1) (swap_at ?ps ?i (?c - 1))"
      using f False by (simp add: removeProp_def Let_def props_def)
    also have "\<dots> = take (?c - 1) ((mProps it)[?i := mProps it ! (?c - 1)])"
      using lt cl by (simp add: swap_at_def)
    finally show ?thesis
      using mset_take_move_last [OF lt cl] by (simp add: props_def)
  qed
  with mem nm show "\<exists>P. P \<in> set (props it) \<and> mName P = Some name \<and>
                 mset (props (snd (removeProp it name))) = mset (props it) - {# P #}"
    by blast
qed

theorem removeProp_swap_remove_witness:
  "wf_item item_abc \<and> map mName (props item_abc) = [Some [97], Some [98], Some [99]] \<and>
   removeProp item_abc [97] =
     (True, item_abc\<lparr>mProps := [prop_c, prop_b, Prop_default, Prop_default], mPropCount := 2\<rparr>) \<and>
   mset (props (snd (removeProp item_abc [97]))) = mset (props item_abc) - {# prop_a #} \<and>
   removeProp item_abc [122] = (False, item_abc)"
  using removeProp_swap_remove [of item_abc "[97]"] removeProp_swap_remove [of item_abc "[122]"]
  by (simp add: ex_defs removeProp_def swap_at_def)

subsection \<open>filter and filterNot\<close>















lemmas store_eval = ex_defs prop_a2_def item_aa_def filter_item_def filter_step_def
  filterNot_def filterNot_loop.simps getName_def names_present_def



subsection \<open>merge and find-or-allocate\<close>

lemma find_takeWhile:
  "find P xs = (if length (takeWhile (\<lambda>x. \<not> P x) xs) < length xs
                then Some (xs ! length (takeWhile (\<lambda>x. \<not> P x) xs)) else None)"
  by (induction xs) auto


lemma takeWhile_update_same:
  assumes "\<not> P v" "length (takeWhile P xs) < length xs"
  shows "takeWhile P (xs[length (takeWhile P xs) := v]) = takeWhile P xs"
  using assms
proof (induction xs)
  case Nil then show ?case by simp
next
  case (Cons a xs) then show ?case by (cases "P a") auto
qed




lemma upsert_names_prefix: "map mName (take (length xs) (upsert xs p)) = map mName xs"
proof -
  let ?i = "length (takeWhile (\<lambda>q. mName q \<noteq> mName p) xs)"
  have "map mName (xs[?i := p]) = map mName xs" if "?i < length xs"
  proof -
    have "\<not> mName (xs ! ?i) \<noteq> mName p" using that by (rule nth_length_takeWhile)
    then show ?thesis by (simp add: map_update list_update_same_conv that)
  qed
  then show ?thesis by (auto simp: upsert_def Let_def)
qed


lemma upsert_new:
  "set (drop (length xs) (upsert xs p)) \<subseteq> {q. q = p \<and> mName p \<noteq> Some []}"
  by (auto simp: upsert_def Let_def)

lemma kGrowProps_pos: "0 < kGrowProps"
  by (simp add: kGrowProps_def)

lemma allocateProp0_Some:
  assumes w: "wf_item it" and a: "allocateProp0 al it = Some (j, it')"
  shows "j = mPropCount it \<and> mPropCount it' = Suc (mPropCount it) \<and>
         mPropCount it < length (mProps it') \<and>
         take (mPropCount it) (mProps it') = props it \<and> hdr it' = hdr it"
proof (cases "mPropCount it = mPropSize it")
  case True
  then have al: "al (mPropSize it + kGrowProps)"
    using a by (auto simp: allocateProp0_def growProps_def Let_def split: if_splits)
  then have "it' = it\<lparr>mProps := mProps it @ replicate kGrowProps Prop_default,
                        mPropCount := Suc (mPropCount it)\<rparr>" and "j = mPropCount it"
    using a True by (auto simp: allocateProp0_def growProps_def Let_def)
  then show ?thesis using True kGrowProps_pos
    by (simp add: mPropSize_def props_def hdr_def)
next
  case False
  then have "it' = it\<lparr>mPropCount := Suc (mPropCount it)\<rparr>" and "j = mPropCount it"
    using a by (auto simp: allocateProp0_def)
  then show ?thesis using False w
    by (simp add: mPropSize_def props_def hdr_def wf_item_def)
qed

lemma allocateProp0_None:
  "allocateProp0 al it = None \<longleftrightarrow>
     mPropCount it = mPropSize it \<and> \<not> al (mPropSize it + kGrowProps)"
  by (auto simp: allocateProp0_def growProps_def Let_def)

lemma take_Suc_update_last:
  "c < length ys \<Longrightarrow> take (Suc c) (ys[c := p]) = take c ys @ [p]"
  by (simp add: take_Suc_conv_app_nth)

lemma findProp_eq:
  "wf_item it \<Longrightarrow>
   findProp it name = (if length (takeWhile (\<lambda>q. mName q \<noteq> Some name) (props it)) < length (props it)
                       then Some (length (takeWhile (\<lambda>q. mName q \<noteq> Some name) (props it))) else None)"
  by (simp add: findProp_def Let_def findPropIndex_takeWhile length_props)

lemma merge_step_found:
  assumes w: "wf_item it" and n: "mName p = Some nm" "nm \<noteq> []" and f: "findProp it nm = Some j"
  shows "merge_step al it p = Some (it\<lparr>mProps := (mProps it)[j := p]\<rparr>)"
    and "props (it\<lparr>mProps := (mProps it)[j := p]\<rparr>) = upsert (props it) p"
proof -
  show "merge_step al it p = Some (it\<lparr>mProps := (mProps it)[j := p]\<rparr>)"
    using n f by (simp add: merge_step_def strlen_def)
  let ?i = "length (takeWhile (\<lambda>q. mName q \<noteq> mName p) (props it))"
  have j: "j = ?i" "?i < length (props it)"
    using f findProp_eq [OF w, of nm] n(1) by (auto split: if_splits)
  have "props (it\<lparr>mProps := (mProps it)[j := p]\<rparr>) = (props it)[j := p]"
    by (simp add: props_def take_update_swap)
  then show "props (it\<lparr>mProps := (mProps it)[j := p]\<rparr>) = upsert (props it) p"
    using j n by (simp add: upsert_def)
qed

lemma merge_step_absent:
  assumes w: "wf_item it" and n: "mName p = Some nm" "nm \<noteq> []" and f: "findProp it nm = None"
  shows "allocateProp0 al it = None \<Longrightarrow> merge_step al it p = Some it"
    and "allocateProp0 al it = Some (j, it') \<Longrightarrow>
         merge_step al it p = Some (it'\<lparr>mProps := (mProps it')[j := p]\<rparr>) \<and>
         props (it'\<lparr>mProps := (mProps it')[j := p]\<rparr>) = upsert (props it) p"
    and "mName p \<notin> mName ` set (props it)"
proof -
  have nf: "\<not> findPropIndex it nm < mPropCount it"
    using f by (simp add: findProp_def Let_def split: if_splits)
  show "mName p \<notin> mName ` set (props it)"
    using nf findPropIndex_found [OF w, of nm] n(1) by auto
  show "allocateProp0 al it = None \<Longrightarrow> merge_step al it p = Some it"
    using n f nf by (simp add: merge_step_def allocateProp_def strlen_def)
  assume a: "allocateProp0 al it = Some (j, it')"
  note A = allocateProp0_Some [OF w a]
  have s: "merge_step al it p = Some (it'\<lparr>mProps := (mProps it')[j := p]\<rparr>)"
    using n f nf a by (simp add: merge_step_def allocateProp_def strlen_def)
  let ?i = "length (takeWhile (\<lambda>q. mName q \<noteq> mName p) (props it))"
  have i: "\<not> ?i < length (props it)"
    using f findProp_eq [OF w, of nm] n(1) by (auto split: if_splits)
  have "props (it'\<lparr>mProps := (mProps it')[j := p]\<rparr>) = props it @ [p]"
    using A take_Suc_update_last [of "mPropCount it" "mProps it'" p]
    by (simp add: props_def)
  then show "merge_step al it p = Some (it'\<lparr>mProps := (mProps it')[j := p]\<rparr>) \<and>
         props (it'\<lparr>mProps := (mProps it')[j := p]\<rparr>) = upsert (props it) p"
    using s i n by (simp add: upsert_def)
qed

lemma merge_step_facts:
  assumes w: "wf_item it" and nn: "mName p \<noteq> None"
  shows "\<exists>it1. merge_step al it p = Some it1 \<and> wf_item it1 \<and> hdr it1 = hdr it \<and>
        (props it1 = upsert (props it) p \<or>
         (it1 = it \<and> mName p \<notin> mName ` set (props it) \<and> store_full al it)) \<and>
        ((\<forall>n. al n) \<longrightarrow> props it1 = upsert (props it) p) \<and>
        (store_full al it \<longrightarrow> store_full al it1)"
proof -
  obtain nm where nm: "mName p = Some nm" using nn by auto
  show ?thesis
  proof (cases "nm = []")
    case True
    then have "merge_step al it p = Some it" using nm by (simp add: merge_step_def strlen_def)
    then show ?thesis using w True nm by (simp add: upsert_def)
  next
    case n: False
    show ?thesis
    proof (cases "findProp it nm")
      case (Some j)
      note F = merge_step_found(1) [OF w nm n Some, of al] merge_step_found(2) [OF w nm n Some]
      have "j < mPropCount it" using Some by (simp add: findProp_def Let_def split: if_splits)
      then have "wf_item (it\<lparr>mProps := (mProps it)[j := p]\<rparr>)"
        and "hdr (it\<lparr>mProps := (mProps it)[j := p]\<rparr>) = hdr it"
        and "store_full al it \<longrightarrow> store_full al (it\<lparr>mProps := (mProps it)[j := p]\<rparr>)"
        using w by (simp_all add: wf_item_def hdr_def store_full_def mPropSize_def)
      then show ?thesis using F by blast
    next
      case None
      note B = merge_step_absent(1,2) [OF w nm n None, of al] merge_step_absent(3) [OF w nm n None]
      show ?thesis
      proof (cases "allocateProp0 al it")
        case a: None
        then have f: "store_full al it" by (simp add: allocateProp0_None store_full_def)
        then have "\<not> (\<forall>n. al n)" by (auto simp: store_full_def)
        then show ?thesis using B(1) [OF a] B(3) w f by auto
      next
        case (Some r)
        obtain j it' where r: "r = (j, it')" by (cases r)
        note A = allocateProp0_Some [OF w Some [unfolded r]]
        note C = B(2) [OF Some [unfolded r]]
        have nf: "\<not> store_full al it"
          using Some allocateProp0_None [of al it] by (simp add: store_full_def)
        have "wf_item (it'\<lparr>mProps := (mProps it')[j := p]\<rparr>)"
          using A by (simp add: wf_item_def)
        moreover have "hdr (it'\<lparr>mProps := (mProps it')[j := p]\<rparr>) = hdr it"
          using A by (simp add: hdr_def)
        ultimately show ?thesis using C nf by blast
      qed
    qed
  qed
qed







lemma upsert_names_unique:
  assumes "distinct (filter (\<lambda>n. n \<noteq> None \<and> n \<noteq> Some []) (map mName xs))"
  shows "distinct (filter (\<lambda>n. n \<noteq> None \<and> n \<noteq> Some []) (map mName (upsert xs p)))"
proof (cases "mName p = Some []")
  case True
  then show ?thesis using assms by (simp add: upsert_def)
next
  case False
  let ?i = "length (takeWhile (\<lambda>q. mName q \<noteq> mName p) xs)"
  show ?thesis
  proof (cases "?i < length xs")
    case True
    then have "upsert xs p = take (length xs) (upsert xs p)"
      using False by (simp add: upsert_def)
    then have "map mName (upsert xs p) = map mName xs"
      using upsert_names_prefix [of xs p] by simp
    then show ?thesis using assms by simp
  next
    case nf: False
    then have "\<forall>q\<in>set xs. mName q \<noteq> mName p"
      using length_takeWhile_less_conv [of "\<lambda>q. mName q \<noteq> mName p" xs] by simp
    then have "mName p \<notin> mName ` set xs" by auto
    moreover have "upsert xs p = xs @ [p]" using nf False by (simp add: upsert_def)
    ultimately show ?thesis using assms False by simp
  qed
qed


text \<open>
  The loop of \<^verbatim>\<open>merge\<close> returns when every incoming name is set; what it leaves is the
  fold of \<open>upsert\<close> over the incoming properties that were not dropped.
\<close>

lemma merge_loop_facts:
  "wf_item it \<Longrightarrow> \<forall>p\<in>set ps. mName p \<noteq> None \<Longrightarrow>
   \<exists>t qs. merge_loop al it ps = Some t \<and> wf_item t \<and> hdr t = hdr it \<and>
     props t = foldl upsert (props it) qs \<and> set qs \<subseteq> set ps \<and>
     ((\<forall>n. al n) \<longrightarrow> qs = ps)"
proof (induction ps arbitrary: it)
  case Nil
  have "merge_loop al it [] = Some it \<and> wf_item it \<and> hdr it = hdr it \<and>
     props it = foldl upsert (props it) [] \<and> set [] \<subseteq> set ([] :: Prop list) \<and>
     ((\<forall>n. al n) \<longrightarrow> [] = ([] :: Prop list))"
    using Nil by simp
  then show ?case by blast
next
  case (Cons p ps)
  have pn: "mName p \<noteq> None" and rest: "\<forall>q\<in>set ps. mName q \<noteq> None"
    using Cons.prems(2) by simp_all
  obtain it1 where S: "merge_step al it p = Some it1" "wf_item it1" "hdr it1 = hdr it"
    "props it1 = upsert (props it) p \<or> it1 = it"
    "(\<forall>n. al n) \<longrightarrow> props it1 = upsert (props it) p"
    using merge_step_facts [OF Cons.prems(1) pn, of al] by blast
  obtain t qs where L: "merge_loop al it1 ps = Some t" "wf_item t" "hdr t = hdr it1"
    "props t = foldl upsert (props it1) qs" "set qs \<subseteq> set ps" "(\<forall>n. al n) \<longrightarrow> qs = ps"
    using Cons.IH [OF S(2) rest] by blast
  have m: "merge_loop al it (p # ps) = Some t" using S(1) L(1) by simp
  show ?case
  proof (cases "props it1 = upsert (props it) p")
    case True
    have "props t = foldl upsert (props it) (p # qs)" using L(4) True by simp
    moreover have "set (p # qs) \<subseteq> set (p # ps)" using L(5) by auto
    moreover have "(\<forall>n. al n) \<longrightarrow> p # qs = p # ps" using L(6) by simp
    ultimately show ?thesis using m L(2,3) S(3) by metis
  next
    case False
    then have e: "props it1 = props it" and na: "\<not> (\<forall>n. al n)" using S(4,5) by auto
    have "props t = foldl upsert (props it) qs" using L(4) e by simp
    moreover have "set qs \<subseteq> set (p # ps)" using L(5) by auto
    moreover have "(\<forall>n. al n) \<longrightarrow> qs = p # ps" using na by blast
    ultimately show ?thesis using m L(2,3) S(3) by metis
  qed
qed




lemma foldl_upsert_names_unique:
  "distinct (filter (\<lambda>n. n \<noteq> None \<and> n \<noteq> Some []) (map mName xs)) \<Longrightarrow>
   distinct (filter (\<lambda>n. n \<noteq> None \<and> n \<noteq> Some []) (map mName (foldl upsert xs ps)))"
proof (induction ps arbitrary: xs)
  case Nil then show ?case by simp
next
  case (Cons p ps)
  show ?case using Cons.IH [OF upsert_names_unique [OF Cons.prems, of p]] by simp
qed


lemma replicate_kGrowProps:
  "replicate kGrowProps x = [x, x, x, x, x, x, x, x, x, x]"
  by (simp add: kGrowProps_def numeral_eq_Suc)

lemmas merge_eval = store_eval prop_a9_def prop_anon_def prop_d_def item_in_def always_def
  never_def merge_def merge_step_def findProp_def allocateProp_def allocateProp0_def
  growProps_def mPropSize_def replicate_kGrowProps setName_def lookup_def strlen_def
  item_unnamed_def store_full_def



lemma allocateProp_names_unique:
  assumes w: "wf_item it" and u: "names_unique it" and a: "allocateProp al it name = Some (j, it')"
  shows "wf_item it' \<and> names_unique it' \<and> j < mPropCount it' \<and> mName (mProps it' ! j) = Some name"
proof (cases "findPropIndex it name < mPropCount it")
  case True
  then have "it' = it" "j = findPropIndex it name"
    using a by (auto simp: allocateProp_def)
  then show ?thesis using w u True findPropIndex_name [OF w True] by simp
next
  case False
  then obtain it0 where a0: "allocateProp0 al it = Some (j, it0)"
    and it': "it' = it0\<lparr>mProps := (mProps it0)[j := setName (mProps it0 ! j) name]\<rparr>"
    using a by (auto simp: allocateProp_def split: option.splits)
  note A = allocateProp0_Some [OF w a0]
  have nin: "Some name \<notin> mName ` set (props it)"
    using False findPropIndex_found [OF w, of name] by force
  have "props it' = props it @ [setName (mProps it0 ! j) name]"
    unfolding it' using A take_Suc_update_last [of "mPropCount it" "mProps it0"]
    by (simp add: props_def)
  then have "names_unique it'"
    using u nin by (simp add: names_unique_def setName_def)
  moreover have "wf_item it'" unfolding it' using A by (simp add: wf_item_def)
  moreover have "j < mPropCount it' \<and> mName (mProps it' ! j) = Some name"
    unfolding it' using A by (simp add: setName_def)
  ultimately show ?thesis by blast
qed

lemma apply_op_invariant:
  "wf_item it \<Longrightarrow> names_unique it \<Longrightarrow> op_ok op \<Longrightarrow>
   \<exists>t. apply_op al it op = Some t \<and> wf_item t \<and> names_unique t"
proof (cases op)
  case (FindOrAllocate name)
  assume w: "wf_item it" and u: "names_unique it"
  show ?thesis
  proof (cases "allocateProp al it name")
    case None
    then show ?thesis using w u FindOrAllocate by simp
  next
    case (Some r)
    obtain j it' where r: "r = (j, it')" by (cases r)
    show ?thesis
      using allocateProp_names_unique [OF w u Some [unfolded r]] FindOrAllocate Some r by simp
  qed
next
  case (Merge incoming)
  assume w: "wf_item it" and u: "names_unique it" and ok: "op_ok op"
  let ?it1 = "if mKey it = [] then it\<lparr>mKey := mKey incoming\<rparr> else it"
  have w1: "wf_item ?it1" using w by (simp add: wf_item_def)
  have p1: "props ?it1 = props it" by (simp add: props_def)
  have np: "\<forall>p\<in>set (props incoming). mName p \<noteq> None"
    using ok Merge by (simp add: names_present_def list_all_iff)
  obtain t qs where L: "merge_loop al ?it1 (props incoming) = Some t" "wf_item t"
    "props t = foldl upsert (props ?it1) qs"
    using merge_loop_facts [OF w1 np, of al] by blast
  have "names_unique t"
    using foldl_upsert_names_unique [of "props it" qs] u L(3)
    unfolding p1 names_unique_def by simp
  moreover have "apply_op al it op = Some t" using L(1) Merge by (simp add: merge_def)
  ultimately show ?thesis using L(2) by blast
qed

text \<open>
  C3 (as amended).  Starting from an item in which no two entries in use share a
  non-empty name, every sequence of find-or-allocate and merge operations (the merges
  taking incoming items whose entries in use all have names), whatever the allocator
  answers, returns and leads to an item with the same property.
\<close>

theorem store_ops_keep_names_unique:
  "wf_item it \<Longrightarrow> names_unique it \<Longrightarrow> list_all op_ok ops \<Longrightarrow>
   \<exists>t. run_ops al it ops = Some t \<and> wf_item t \<and> names_unique t"
proof (induction ops arbitrary: it)
  case Nil
  then show ?case by simp
next
  case (Cons op ops)
  obtain it1 where s: "apply_op al it op = Some it1" "wf_item it1" "names_unique it1"
    using apply_op_invariant [of it op al] Cons.prems by auto
  have "list_all op_ok ops" using Cons.prems(3) by simp
  from Cons.IH [OF s(2,3) this] show ?case using s(1) by simp
qed

theorem store_ops_keep_names_unique_witness:
  "wf_item item_abc \<and> names_unique item_abc \<and>
   list_all op_ok [FindOrAllocate [98], FindOrAllocate [101], Merge item_in] \<and>
   map_option props
     (run_ops always item_abc [FindOrAllocate [98], FindOrAllocate [101], Merge item_in])
     = Some [prop_a9, prop_b, prop_c, \<lparr>mName = Some [101], mType = kTypeNone, u = NoValue\<rparr>, prop_d] \<and>
   map_option names_unique
     (run_ops always item_abc [FindOrAllocate [98], FindOrAllocate [101], Merge item_in])
     = Some True"
  using store_ops_keep_names_unique [of item_abc
      "[FindOrAllocate [98], FindOrAllocate [101], Merge item_in]" always]
  by (simp add: merge_eval names_unique_def)

subsection \<open>The encoder\<close>

lemma length_le_bytes [simp]: "length (le_bytes n k) = n"
  by (induction n arbitrary: k) auto

lemma length_word_bytes [simp]: "length (word_bytes w) = sizeof w"
  by (simp add: word_bytes_def)

lemma sizeof_simps [simp]:
  "sizeof (a :: 8 word) = 1" "sizeof (b :: 16 word) = 2"
  "sizeof (c :: 32 word) = 4" "sizeof (d :: 64 word) = 8"
  by (simp_all add: sizeof_def)

lemma word_bytes_byte: "word_bytes (b :: byte) = [b]"
proof -
  have "unat b < 2 ^ LENGTH(8)" by (rule unsigned_less)
  then have "unat b mod 256 = unat b" by simp
  then show ?thesis by (simp add: word_bytes_def)
qed

lemma insert_val_ok:
  "length buf + sizeof val \<le> bmax \<Longrightarrow> insert_val val buf bmax = (NO_ERROR, buf @ word_bytes val)"
  by (simp add: insert_val_def)

lemma insert_cstr_ok:
  "length s + 1 \<le> UINT16_MAX \<Longrightarrow> length buf + length s + 1 \<le> bmax \<Longrightarrow>
   insert_cstr s buf bmax = (NO_ERROR, buf @ s @ [0])"
  by (simp add: insert_cstr_def strlen_def)

lemma and_then_ok [simp]: "and_then (NO_ERROR, buf) f = f buf"
  by (simp add: and_then_def)

lemma getByteStringSize_valid:
  "prop_strings_valid p \<Longrightarrow> getByteStringSize p = Some (record_size p)"
  by (cases "mType p")
     (auto simp: prop_strings_valid_def getByteStringSize_def record_size_def wire_payload_def
        name_bytes_def string_bytes_def strlen_def)

lemma getByteStringSize_Some:
  "getByteStringSize p = Some n \<Longrightarrow> prop_strings_valid p"
  by (cases "mType p")
     (auto simp: prop_strings_valid_def getByteStringSize_def Let_def split: option.splits)

lemma length_wire_prop [simp]: "length (wire_prop tg p) = record_size p"
  by (simp add: wire_prop_def record_size_def)

lemma Prop_writeToByteString_ok:
  assumes v: "prop_strings_valid p"
    and s: "record_size p \<le> UINT16_MAX"
    and b: "length buf + record_size p \<le> bmax"
  shows "Prop_writeToByteString tg p buf bmax = Some (NO_ERROR, buf @ wire_prop tg p)"
proof -
  obtain name where nm: "mName p = Some name"
    using v by (auto simp: prop_strings_valid_def)
  have n: "length name + 1 \<le> UINT16_MAX"
    using s nm by (simp add: record_size_def name_bytes_def)
  show ?thesis
  proof (cases "mType p")
    case kTypeNone
    then show ?thesis using s b n nm
      by (simp add: Prop_writeToByteString_def writeToByteString_none_def record_size_def
          wire_prop_def wire_payload_def wire_tag_def name_bytes_def strlen_def insert_val_ok
          insert_cstr_ok word_bytes_byte)
  next
    case kTypeInt32
    then show ?thesis using s b n nm
      by (simp add: Prop_writeToByteString_def writeToByteString_int32_def record_size_def
          wire_prop_def wire_payload_def wire_tag_def name_bytes_def strlen_def insert_val_ok
          insert_cstr_ok word_bytes_byte)
  next
    case kTypeInt64
    then show ?thesis using s b n nm
      by (simp add: Prop_writeToByteString_def writeToByteString_int64_def record_size_def
          wire_prop_def wire_payload_def wire_tag_def name_bytes_def strlen_def insert_val_ok
          insert_cstr_ok word_bytes_byte)
  next
    case kTypeDouble
    then show ?thesis using s b n nm
      by (simp add: Prop_writeToByteString_def writeToByteString_double_def record_size_def
          wire_prop_def wire_payload_def wire_tag_def name_bytes_def strlen_def insert_val_ok
          insert_cstr_ok word_bytes_byte)
  next
    case kTypeCString
    then obtain val where val: "cstringValue (u p) = Some val"
      using v by (auto simp: prop_strings_valid_def)
    show ?thesis using kTypeCString val s b n nm
      by (simp add: Prop_writeToByteString_def writeToByteString_cstr_def record_size_def
          wire_prop_def wire_payload_def wire_tag_def name_bytes_def string_bytes_def strlen_def
          insert_val_ok insert_cstr_ok word_bytes_byte)
  next
    case kTypeRate
    then show ?thesis using s b n nm
      by (simp add: Prop_writeToByteString_def writeToByteString_rate_def record_size_def
          wire_prop_def wire_payload_def wire_tag_def name_bytes_def strlen_def insert_val_ok
          insert_cstr_ok word_bytes_byte)
  qed
qed

lemma write_props_ok:
  "list_all prop_strings_valid ps \<Longrightarrow> \<forall>p\<in>set ps. record_size p \<le> UINT16_MAX \<Longrightarrow>
   length buf + sum_list (map record_size ps) \<le> bmax \<Longrightarrow>
   write_props tg ps buf bmax = Some (NO_ERROR, buf @ concat (map (wire_prop tg) ps))"
proof (induction ps arbitrary: buf)
  case Nil
  then show ?case by simp
next
  case (Cons p ps)
  have 1: "Prop_writeToByteString tg p buf bmax = Some (NO_ERROR, buf @ wire_prop tg p)"
    using Cons.prems by (intro Prop_writeToByteString_ok) simp_all
  have 2: "write_props tg ps (buf @ wire_prop tg p) bmax
             = Some (NO_ERROR, (buf @ wire_prop tg p) @ concat (map (wire_prop tg) ps))"
    using Cons.prems by (intro Cons.IH) simp_all
  show ?case by (simp add: 1 2)
qed

lemma add_prop_sizes_eq:
  "list_all prop_strings_valid ps \<Longrightarrow> sz \<le> UINT32_MAX \<Longrightarrow>
   add_prop_sizes sz ps =
     Some (if (\<forall>p\<in>set ps. record_size p \<le> UINT16_MAX)
              \<and> sz + sum_list (map record_size ps) \<le> UINT32_MAX
           then Inr (sz + sum_list (map record_size ps)) else Inl INVALID_OPERATION)"
proof (induction ps arbitrary: sz)
  case Nil
  then show ?case by simp
next
  case (Cons p ps)
  have g: "getByteStringSize p = Some (record_size p)"
    using Cons.prems(1) by (simp add: getByteStringSize_valid)
  have r: "list_all prop_strings_valid ps" using Cons.prems(1) by simp
  show ?case
  proof (cases "record_size p > UINT16_MAX \<or> sz + record_size p > UINT32_MAX")
    case True
    then show ?thesis using g by auto
  next
    case False
    then have "sz + record_size p \<le> UINT32_MAX" by simp
    from Cons.IH [OF r this] False g show ?thesis by (simp add: add.assoc)
  qed
qed

lemma add_prop_sizes_cases:
  "add_prop_sizes sz ps = Some r \<Longrightarrow>
   (case r of Inl e \<Rightarrow> e = INVALID_OPERATION | Inr n \<Rightarrow> list_all prop_strings_valid ps)"
proof (induction ps arbitrary: sz)
  case Nil
  then show ?case by auto
next
  case (Cons p ps)
  show ?case
  proof (cases "getByteStringSize p")
    case None
    then show ?thesis using Cons.prems by simp
  next
    case (Some n)
    note v = getByteStringSize_Some [OF Some]
    show ?thesis
    proof (cases "n > UINT16_MAX \<or> sz + n > UINT32_MAX")
      case True
      then have "r = Inl INVALID_OPERATION" using Cons.prems Some by (auto split: if_splits)
      then show ?thesis by simp
    next
      case False
      then have "add_prop_sizes (sz + n) ps = Some r" using Cons.prems Some by simp
      from Cons.IH [OF this] show ?thesis using v by (cases r) simp_all
    qed
  qed
qed

lemma byteStringSize_eq:
  "encodable it \<Longrightarrow>
   byteStringSize it =
     Some (if length (c_str (mKey it)) + 1 \<le> UINT16_MAX
              \<and> (\<forall>p\<in>set (props it). record_size p \<le> UINT16_MAX)
              \<and> total_size it \<le> UINT32_MAX
           then Inr (total_size it) else Inl INVALID_OPERATION)"
proof (cases "length (c_str (mKey it)) + 1 \<le> UINT16_MAX")
  case False
  then show ?thesis by (simp add: byteStringSize_def strlen_def Let_def)
next
  case True
  assume "encodable it"
  then have v: "list_all prop_strings_valid (props it)" by (simp add: encodable_def)
  have "header_size_of it + 4 \<le> UINT32_MAX"
    using True by (simp add: header_size_of_def strlen_def UINT16_MAX_def UINT32_MAX_def)
  from add_prop_sizes_eq [OF v this] True show ?thesis
    by (simp add: byteStringSize_def strlen_def Let_def total_size_def)
qed

lemma byteStringSize_cases:
  "byteStringSize it = Some (Inr n) \<Longrightarrow> encodable it"
  "byteStringSize it = Some (Inl e) \<Longrightarrow> e = INVALID_OPERATION"
proof -
  show "encodable it" if "byteStringSize it = Some (Inr n)"
    using that add_prop_sizes_cases [of "header_size_of it + 4" "props it" "Inr n"]
    by (simp add: byteStringSize_def Let_def encodable_def split: if_splits)
  show "e = INVALID_OPERATION" if "byteStringSize it = Some (Inl e)"
    using that add_prop_sizes_cases [of "header_size_of it + 4" "props it" "Inl e"]
    by (simp add: byteStringSize_def Let_def split: if_splits)
qed

lemma length_wire_head: "length (wire_head it sz) = header_size_of it + 4"
  by (simp add: wire_head_def header_size_of_def strlen_def)

lemma write_header_ok:
  assumes k: "length (c_str (mKey it)) + 1 \<le> UINT16_MAX" and s: "header_size_of it + 4 \<le> sz"
  shows "write_header it sz [] = (NO_ERROR, wire_head it sz)"
  using k s
  by (simp add: write_header_def wire_head_def header_size_of_def strlen_def
      insert_val_ok insert_cstr_ok)

lemma length_wire: "length (wire tg it sz) = total_size it"
proof -
  have "length (concat (map (wire_prop tg) ps)) = sum_list (map record_size ps)" for ps
    by (induction ps) simp_all
  then show ?thesis by (simp add: wire_def total_size_def length_wire_head)
qed

lemma writeToByteString_eq:
  assumes e: "encodable it"
  shows "writeToByteString tg al it pbuffer_null plength_null =
     Some (if pbuffer_null \<or> plength_null then (BAD_VALUE, None)
           else if length (c_str (mKey it)) + 1 \<le> UINT16_MAX
                   \<and> (\<forall>p\<in>set (props it). record_size p \<le> UINT16_MAX)
                   \<and> total_size it \<le> UINT32_MAX
           then (if al (total_size it)
                 then (NO_ERROR, Some (wire tg it (total_size it), total_size it))
                 else (NO_MEMORY, None))
           else (INVALID_OPERATION, None))"
proof (cases "length (c_str (mKey it)) + 1 \<le> UINT16_MAX
                   \<and> (\<forall>p\<in>set (props it). record_size p \<le> UINT16_MAX)
                   \<and> total_size it \<le> UINT32_MAX")
  case False
  then have "byteStringSize it = Some (Inl INVALID_OPERATION)"
    using byteStringSize_eq [OF e] by (simp only: if_False)
  then show ?thesis using False by (auto simp: writeToByteString_def)
next
  case c: True
  let ?sz = "total_size it"
  have bs: "byteStringSize it = Some (Inr ?sz)"
    using byteStringSize_eq [OF e] c by simp
  have v: "list_all prop_strings_valid (props it)" using e by (simp add: encodable_def)
  have h: "write_header it ?sz [] = (NO_ERROR, wire_head it ?sz)"
    using c by (intro write_header_ok) (simp_all add: total_size_def)
  have p: "write_props tg (props it) (wire_head it ?sz) ?sz
             = Some (NO_ERROR, wire_head it ?sz @ concat (map (wire_prop tg) (props it)))"
    using c v by (intro write_props_ok) (simp_all add: total_size_def length_wire_head)
  have l: "length (wire tg it ?sz) = ?sz" by (simp add: length_wire)
  show ?thesis
    using c l by (simp add: writeToByteString_def bs h p wire_def [symmetric])
qed

lemma le_bytes_numeral [simp]:
  "le_bytes (numeral v) k = of_nat (k mod 256) # le_bytes (pred_numeral v) (k div 256)"
  by (subst numeral_eq_Suc) (rule le_bytes.simps)

lemma le_bytes_1 [simp]: "le_bytes 1 k = [of_nat (k mod 256)]"
  unfolding One_nat_def by simp

lemmas wire_eval = wire_def wire_head_def wire_prop_def wire_payload_def wire_tag_def
  word_bytes_def header_size_of_def total_size_def record_size_def name_bytes_def
  string_bytes_def strlen_def c_str_def encodable_def prop_strings_valid_def
  UINT16_MAX_def UINT32_MAX_def aosp_tags_def int32Value_def int64Value_def doubleValue_def
  rate_first_def rate_second_def cstringValue_def

text \<open>
  C9.  A call of \<^verbatim>\<open>writeToByteString\<close> that returns either returns \<^verbatim>\<open>NO_ERROR\<close> and stores
  a buffer and a length, where the length is the size computed beforehand, the size
  allocated and the number of bytes written (the cursor is at the end of the region) and
  the bytes are the layout \<open>wire\<close>; or it returns an error and stores nothing, and then a
  pointer argument was null, or the size computation failed (nothing was allocated), or
  the allocation itself failed.  The failure branches behind the allocation are never
  taken.  The call returns whenever every entry in use has a name, and a string value
  when its type is string; a call that does not return stops in the size computation,
  at the \<^verbatim>\<open>strlen\<close> of a null pointer, before anything is allocated.
\<close>

theorem encode_all_or_nothing:
  "(encodable it \<longrightarrow> writeToByteString tg al it pn ln \<noteq> None) \<and>
   (\<forall>r. writeToByteString tg al it pn ln = Some r \<longrightarrow>
      (fst r = NO_ERROR \<longrightarrow>
         (\<exists>buf. snd r = Some (buf, length buf) \<and>
                byteStringSize it = Some (Inr (length buf)) \<and> al (length buf) \<and>
                buf = wire tg it (length buf))) \<and>
      (fst r \<noteq> NO_ERROR \<longrightarrow>
         snd r = None \<and>
         (pn \<or> ln \<or> byteStringSize it = Some (Inl (fst r)) \<or>
          (\<exists>sz. byteStringSize it = Some (Inr sz) \<and> \<not> al sz \<and> fst r = NO_MEMORY)))) \<and>
   (writeToByteString tg al it pn ln = None \<longrightarrow> \<not> pn \<and> \<not> ln \<and> byteStringSize it = None)"
proof (cases "encodable it")
  case e: True
  let ?c = "length (c_str (mKey it)) + 1 \<le> UINT16_MAX
                   \<and> (\<forall>p\<in>set (props it). record_size p \<le> UINT16_MAX)
                   \<and> total_size it \<le> UINT32_MAX"
  note W = writeToByteString_eq [OF e, of tg al pn ln]
  note B = byteStringSize_eq [OF e]
  have l: "length (wire tg it (total_size it)) = total_size it" by (simp add: length_wire)
  show ?thesis
  proof (cases "pn \<or> ln")
    case True
    then have "writeToByteString tg al it pn ln = Some (BAD_VALUE, None)"
      unfolding W by simp
    then show ?thesis using True by auto
  next
    case n: False
    show ?thesis
    proof (cases ?c)
      case False
      then have "writeToByteString tg al it pn ln = Some (INVALID_OPERATION, None)"
        and "byteStringSize it = Some (Inl INVALID_OPERATION)"
        unfolding W B using n by simp_all
      then show ?thesis by auto
    next
      case c: True
      then have b: "byteStringSize it = Some (Inr (total_size it))"
        unfolding B by simp
      show ?thesis
      proof (cases "al (total_size it)")
        case True
        then have "writeToByteString tg al it pn ln
            = Some (NO_ERROR, Some (wire tg it (total_size it), total_size it))"
          unfolding W using n c by simp
        then show ?thesis using b l True by auto
      next
        case False
        then have "writeToByteString tg al it pn ln = Some (NO_MEMORY, None)"
          unfolding W using n c by simp
        then show ?thesis using b False by auto
      qed
    qed
  qed
next
  case ne: False
  show ?thesis
  proof (cases "pn \<or> ln")
    case True
    then have "writeToByteString tg al it pn ln = Some (BAD_VALUE, None)"
      by (simp add: writeToByteString_def)
    then show ?thesis using True ne by auto
  next
    case n: False
    show ?thesis
    proof (cases "byteStringSize it")
      case None
      then have "writeToByteString tg al it pn ln = None"
        using n by (simp add: writeToByteString_def)
      then show ?thesis using None n ne by auto
    next
      case (Some x)
      show ?thesis
      proof (cases x)
        case (Inl e)
        then have "writeToByteString tg al it pn ln = Some (e, None)"
          and "e = INVALID_OPERATION"
          using Some n byteStringSize_cases(2) [of it e] by (simp_all add: writeToByteString_def)
        then show ?thesis using Some Inl ne by auto
      next
        case (Inr sz)
        then have "encodable it" using Some byteStringSize_cases(1) [of it sz] by simp
        then show ?thesis using ne by simp
      qed
    qed
  qed
qed

theorem encode_all_or_nothing_witness:
  "encodable item_abc \<and>
   writeToByteString aosp_tags always item_abc False False =
     Some (NO_ERROR,
      Some ([64, 0, 0, 0, 30, 0, 0, 0, 0, 0, 2, 0, 107, 0, 1, 0, 0, 0, 2, 0, 0, 0,
             5, 0, 0, 0, 0, 0, 0, 0, 3, 0, 0, 0, 9, 0, 1, 97, 0, 1, 0, 0, 0, 13, 0,
             2, 98, 0, 2, 0, 0, 0, 0, 0, 0, 0, 8, 0, 4, 99, 0, 120, 121, 0], 64)) \<and>
   byteStringSize item_abc = Some (Inr 64) \<and>
   writeToByteString aosp_tags never item_abc False False = Some (NO_MEMORY, None) \<and>
   byteStringSize (item_named 65532) = Some (Inl INVALID_OPERATION) \<and>
   writeToByteString aosp_tags always (item_named 65532) False False
     = Some (INVALID_OPERATION, None) \<and>
   \<not> encodable item_unnamed \<and> byteStringSize item_unnamed = None \<and>
   writeToByteString aosp_tags always item_unnamed False False = None"
proof -
  have e: "encodable item_abc" "encodable (item_named 65532)" "\<not> encodable item_unnamed"
    by (simp_all add: wire_eval ex_defs item_named_def item_unnamed_def)
  have 1: "writeToByteString aosp_tags always item_abc False False =
     Some (NO_ERROR,
      Some ([64, 0, 0, 0, 30, 0, 0, 0, 0, 0, 2, 0, 107, 0, 1, 0, 0, 0, 2, 0, 0, 0,
             5, 0, 0, 0, 0, 0, 0, 0, 3, 0, 0, 0, 9, 0, 1, 97, 0, 1, 0, 0, 0, 13, 0,
             2, 98, 0, 2, 0, 0, 0, 0, 0, 0, 0, 8, 0, 4, 99, 0, 120, 121, 0], 64))"
    unfolding writeToByteString_eq [OF e(1)] by (simp add: wire_eval ex_defs always_def)
  have 2: "byteStringSize item_abc = Some (Inr 64)"
    unfolding byteStringSize_eq [OF e(1)] by (simp add: wire_eval ex_defs)
  have 3: "writeToByteString aosp_tags never item_abc False False = Some (NO_MEMORY, None)"
    unfolding writeToByteString_eq [OF e(1)] by (simp add: wire_eval ex_defs never_def)
  have 4: "byteStringSize (item_named 65532) = Some (Inl INVALID_OPERATION)"
    unfolding byteStringSize_eq [OF e(2)] by (simp add: wire_eval props_def item_named_def)
  have 5: "writeToByteString aosp_tags always (item_named 65532) False False
     = Some (INVALID_OPERATION, None)"
    unfolding writeToByteString_eq [OF e(2)] by (simp add: wire_eval props_def item_named_def)
  have 6: "byteStringSize item_unnamed = None"
    by (simp add: byteStringSize_def getByteStringSize_def wire_eval ex_defs item_unnamed_def)
  have 7: "writeToByteString aosp_tags always item_unnamed False False = None"
    by (simp add: writeToByteString_def 6)
  show ?thesis
    using encode_all_or_nothing [of item_abc aosp_tags always False False]
      encode_all_or_nothing [of item_abc aosp_tags never False False]
      encode_all_or_nothing [of "item_named 65532" aosp_tags always False False]
      encode_all_or_nothing [of item_unnamed aosp_tags always False False]
      e 1 2 3 4 5 6 7
    by simp
qed

text \<open>
  C2 (as amended).  On an item whose entries in use all have a name, and a string value
  when their type is string, the encoder returns.  The 16-bit limit is on the key with
  its terminator and on each whole property record (length field, type code, name with
  terminator, payload): encoding succeeds exactly when these are at most 65535, the
  total is at most \<open>2^32 - 1\<close> and the buffer is granted; then the output is the full
  layout, every name and string in it up to its terminator.  When the key or a record is
  larger the call returns \<^verbatim>\<open>INVALID_OPERATION\<close> and stores nothing.
\<close>

theorem encode_record_size_limit:
  assumes "encodable it"
  shows "\<exists>r. writeToByteString tg al it False False = Some r \<and>
   (fst r = NO_ERROR \<longleftrightarrow>
      strlen (c_str (mKey it)) + 1 \<le> 65535 \<and>
      (\<forall>p\<in>set (props it). \<exists>n \<le> 65535. getByteStringSize p = Some n) \<and>
      total_size it \<le> 4294967295 \<and> al (total_size it)) \<and>
   (fst r = NO_ERROR \<longrightarrow> snd r = Some (wire tg it (total_size it), total_size it)) \<and>
   (strlen (c_str (mKey it)) + 1 > 65535 \<or>
    (\<exists>p\<in>set (props it). \<exists>n > 65535. getByteStringSize p = Some n) \<longrightarrow>
      r = (INVALID_OPERATION, None))"
proof -
  have g: "getByteStringSize p = Some (record_size p)" if "p \<in> set (props it)" for p
    using assms that by (simp add: encodable_def list_all_iff getByteStringSize_valid)
  have a: "(\<forall>p\<in>set (props it). \<exists>n \<le> 65535. getByteStringSize p = Some n)
      \<longleftrightarrow> (\<forall>p\<in>set (props it). record_size p \<le> UINT16_MAX)"
    using g by (auto simp: UINT16_MAX_def)
  have b: "(\<exists>p\<in>set (props it). \<exists>n > 65535. getByteStringSize p = Some n)
      \<longleftrightarrow> \<not> (\<forall>p\<in>set (props it). record_size p \<le> UINT16_MAX)"
    using g by (auto simp: UINT16_MAX_def not_le)
  show ?thesis
    unfolding a b writeToByteString_eq [OF assms]
    by (auto simp: strlen_def UINT16_MAX_def UINT32_MAX_def)
qed

theorem encode_record_size_limit_witness:
  "encodable (item_named 65531) \<and> encodable (item_named 65532) \<and>
   encodable (item_valued 65529) \<and> encodable (item_valued 65530) \<and>
   getByteStringSize (hd (props (item_named 65531))) = Some 65535 \<and>
   map_option fst (writeToByteString aosp_tags always (item_named 65531) False False)
     = Some NO_ERROR \<and>
   getByteStringSize (hd (props (item_named 65532))) = Some 65536 \<and>
   writeToByteString aosp_tags always (item_named 65532) False False
     = Some (INVALID_OPERATION, None) \<and>
   getByteStringSize (hd (props (item_valued 65529))) = Some 65535 \<and>
   map_option fst (writeToByteString aosp_tags always (item_valued 65529) False False)
     = Some NO_ERROR \<and>
   getByteStringSize (hd (props (item_valued 65530))) = Some 65536 \<and>
   writeToByteString aosp_tags always (item_valued 65530) False False
     = Some (INVALID_OPERATION, None)"
  using encode_record_size_limit [of "item_named 65531" aosp_tags always]
    encode_record_size_limit [of "item_named 65532" aosp_tags always]
    encode_record_size_limit [of "item_valued 65529" aosp_tags always]
    encode_record_size_limit [of "item_valued 65530" aosp_tags always]
  by (auto simp: item_named_def item_valued_def props_def getByteStringSize_def strlen_def
      total_size_def header_size_of_def c_str_def always_def cstringValue_def encodable_def
      prop_strings_valid_def record_size_def name_bytes_def string_bytes_def wire_payload_def)

text \<open>
  C2 as stated fails: a name, or a string value, of 65535 bytes with its terminator
  makes the record longer than 65535 bytes, and the encoder refuses it.
\<close>

theorem encode_name_65535_counterexample:
  "encodable (item_named 65534) \<and>
   map_option strlen (mName (hd (props (item_named 65534)))) = Some 65534 \<and>
   getByteStringSize (hd (props (item_named 65534))) = Some 65538 \<and>
   writeToByteString aosp_tags always (item_named 65534) False False
     = Some (INVALID_OPERATION, None) \<and>
   encodable (item_valued 65534) \<and>
   map_option strlen (cstringValue (u (hd (props (item_valued 65534))))) = Some 65534 \<and>
   getByteStringSize (hd (props (item_valued 65534))) = Some 65540 \<and>
   writeToByteString aosp_tags always (item_valued 65534) False False
     = Some (INVALID_OPERATION, None)"
  by (simp add: writeToByteString_eq byteStringSize_eq item_named_def item_valued_def props_def
      getByteStringSize_def strlen_def total_size_def header_size_of_def c_str_def always_def
      cstringValue_def UINT16_MAX_def UINT32_MAX_def encodable_def prop_strings_valid_def
      record_size_def name_bytes_def string_bytes_def wire_payload_def)

subsection \<open>The decoder\<close>

lemma extract_val_cong:
  "\<forall>i. rd \<le> i \<longrightarrow> mem' i = mem i \<Longrightarrow>
   (extract_val mem' rd rmax :: status_t + ('a::len word \<times> nat)) = extract_val mem rd rmax"
proof -
  assume a: "\<forall>i. rd \<le> i \<longrightarrow> mem' i = mem i"
  have "map mem' [rd..<rd + n] = map mem [rd..<rd + n]" for n
    using a by (intro map_cong) simp_all
  then show ?thesis unfolding extract_val_def Let_def by (simp only:)
qed

lemma extract_val_mono:
  "(extract_val mem rd rmax :: status_t + ('a::len word \<times> nat)) = Inr (v, rd') \<Longrightarrow>
   rd \<le> rd' \<and> rd' \<le> rmax"
  by (auto simp: extract_val_def Let_def split: if_splits)

lemma extract_cstr_loop_cong:
  "\<forall>i. ptr \<le> i \<longrightarrow> mem' i = mem i \<Longrightarrow>
   extract_cstr_loop mem' rmax ptr = extract_cstr_loop mem rmax ptr"
proof (induction mem rmax ptr rule: extract_cstr_loop.induct)
  case (1 mem rmax ptr)
  have e: "mem' ptr = mem ptr" using "1.prems" by simp
  show ?case
  proof (cases "mem ptr \<noteq> 0 \<and> \<not> ptr \<ge> rmax")
    case True
    then have "extract_cstr_loop mem' rmax (Suc ptr) = extract_cstr_loop mem rmax (Suc ptr)"
      using "1.IH" "1.prems" by simp
    then show ?thesis using True e
      by (subst extract_cstr_loop.simps, subst (2) extract_cstr_loop.simps) simp
  next
    case False
    then show ?thesis using e
      by (subst extract_cstr_loop.simps, subst (2) extract_cstr_loop.simps) auto
  qed
qed

lemma extract_cstr_loop_ge:
  "extract_cstr_loop mem rmax ptr = Some q \<Longrightarrow> ptr \<le> q \<and> mem q = 0 \<and> (\<forall>i. ptr \<le> i \<and> i < q \<longrightarrow> mem i \<noteq> 0)"
proof (induction mem rmax ptr rule: extract_cstr_loop.induct)
  case (1 mem rmax ptr)
  show ?case
  proof (cases "mem ptr \<noteq> 0")
    case True
    then have nr: "\<not> ptr \<ge> rmax" and r: "extract_cstr_loop mem rmax (Suc ptr) = Some q"
      using "1.prems" by (subst (asm) extract_cstr_loop.simps, simp split: if_splits)+
    from "1.IH" [OF True nr r]
    have q: "Suc ptr \<le> q" "mem q = 0" and a: "\<forall>i. Suc ptr \<le> i \<and> i < q \<longrightarrow> mem i \<noteq> 0"
      by blast+
    have "mem i \<noteq> 0" if "ptr \<le> i \<and> i < q" for i
    proof (cases "i = ptr")
      case True then show ?thesis using \<open>mem ptr \<noteq> 0\<close> by simp
    next
      case False then show ?thesis using that a by (simp add: Suc_le_eq)
    qed
    then show ?thesis using q by auto
  next
    case False
    then have "q = ptr" using "1.prems" by (subst (asm) extract_cstr_loop.simps) simp
    then show ?thesis using False by auto
  qed
qed

lemma extract_cstr_cong:
  "\<forall>i. rd \<le> i \<longrightarrow> mem' i = mem i \<Longrightarrow> extract_cstr mem' rd rmax = extract_cstr mem rd rmax"
  using extract_cstr_loop_cong [of rd mem' mem rmax]
  by (auto simp: extract_cstr_def Let_def split: option.splits)

lemma extract_cstr_mono:
  "extract_cstr mem rd rmax = Inr (s, rd') \<Longrightarrow> rd < rd'"
  by (auto simp: extract_cstr_def Let_def split: option.splits)

lemma read_payload_mono:
  "read_payload tg p2 type mem rd rmax = (st, p', rd') \<Longrightarrow> rd \<le> rd'"
proof (cases "type_of_tag tg type")
  case None
  assume "read_payload tg p2 type mem rd rmax = (st, p', rd')"
  with None show ?thesis by (simp add: read_payload_def)
next
  case (Some t)
  assume r: "read_payload tg p2 type mem rd rmax = (st, p', rd')"
  show ?thesis
  proof (cases t)
    case kTypeRate
    with r Some show ?thesis
      by (simp add: read_payload_def split: sum.splits prod.splits)
         (auto dest!: extract_val_mono)
  next
    case kTypeCString
    with r Some show ?thesis
      by (auto simp: read_payload_def split: sum.splits prod.splits dest!: extract_cstr_mono)
  qed (use r Some in \<open>auto simp: read_payload_def split: sum.splits prod.splits
         dest!: extract_val_mono\<close>)
qed

lemma read_payload_cong:
  assumes a: "\<forall>i. rd \<le> i \<longrightarrow> mem' i = mem i"
  shows "read_payload tg p2 type mem' rd rmax = read_payload tg p2 type mem rd rmax"
proof -
  have v: "(extract_val mem' r rmax :: status_t + ('a::len word \<times> nat)) = extract_val mem r rmax"
    if "rd \<le> r" for r
    using a that by (intro extract_val_cong) auto
  have c: "extract_cstr mem' rd rmax = extract_cstr mem rd rmax"
    using a by (intro extract_cstr_cong) auto
  have rate: "(case (extract_val mem' rd rmax :: status_t + (64 word \<times> nat)) of
             Inl e \<Rightarrow> (e, p2\<lparr>mType := kTypeRate\<rparr>, rd)
           | Inr (a, rd4) \<Rightarrow>
               (case (extract_val mem' rd4 rmax :: status_t + (64 word \<times> nat)) of
                  Inl e \<Rightarrow>
                    (e, p2\<lparr>mType := kTypeRate, u := RateValue a (rate_second (u p2))\<rparr>, rd4)
                | Inr (b, rd5) \<Rightarrow>
                    (NO_ERROR, p2\<lparr>mType := kTypeRate, u := RateValue a b\<rparr>, rd5)))
      = (case (extract_val mem rd rmax :: status_t + (64 word \<times> nat)) of
             Inl e \<Rightarrow> (e, p2\<lparr>mType := kTypeRate\<rparr>, rd)
           | Inr (a, rd4) \<Rightarrow>
               (case (extract_val mem rd4 rmax :: status_t + (64 word \<times> nat)) of
                  Inl e \<Rightarrow>
                    (e, p2\<lparr>mType := kTypeRate, u := RateValue a (rate_second (u p2))\<rparr>, rd4)
                | Inr (b, rd5) \<Rightarrow>
                    (NO_ERROR, p2\<lparr>mType := kTypeRate, u := RateValue a b\<rparr>, rd5)))"
  proof (cases "extract_val mem rd rmax :: status_t + (64 word \<times> nat)")
    case (Inl e)
    then show ?thesis by (simp add: v)
  next
    case (Inr r)
    obtain x rd4 where r: "r = (x, rd4)" by (cases r)
    have "rd \<le> rd4" using extract_val_mono [OF Inr [unfolded r]] by simp
    then show ?thesis using Inr r by (simp add: v)
  qed
  show ?thesis
  proof (cases "type_of_tag tg type")
    case None
    then show ?thesis by (simp add: read_payload_def)
  next
    case (Some t)
    show ?thesis
    proof (cases t)
      case kTypeRate
      with Some show ?thesis by (simp add: read_payload_def rate)
    qed (use Some in \<open>simp_all add: read_payload_def v c\<close>)
  qed
qed

lemma Prop_readFromByteString_mono:
  assumes r: "Prop_readFromByteString tg p mem rd rmax = (st, p', rd')"
  shows "rd \<le> rd'"
proof (cases "extract_val mem rd rmax :: status_t + (16 word \<times> nat)")
  case (Inl e)
  with r show ?thesis by (simp add: Prop_readFromByteString_def)
next
  case (Inr x1)
  obtain len rd1 where x1: "x1 = (len, rd1)" by (cases x1)
  have m1: "rd \<le> rd1" using extract_val_mono [OF Inr [unfolded x1]] by simp
  show ?thesis
  proof (cases "extract_val mem rd1 rmax :: status_t + (8 word \<times> nat)")
    case (Inl e)
    with r Inr x1 m1 show ?thesis by (simp add: Prop_readFromByteString_def)
  next
    case i2: (Inr x2)
    obtain type rd2 where x2: "x2 = (type, rd2)" by (cases x2)
    have m2: "rd1 \<le> rd2" using extract_val_mono [OF i2 [unfolded x2]] by simp
    show ?thesis
    proof (cases "extract_cstr mem rd2 rmax")
      case (Inl e)
      with r Inr x1 i2 x2 m1 m2 show ?thesis by (simp add: Prop_readFromByteString_def)
    next
      case i3: (Inr x3)
      obtain name rd3 where x3: "x3 = (name, rd3)" by (cases x3)
      have m3: "rd2 < rd3" using extract_cstr_mono [OF i3 [unfolded x3]] .
      have "\<exists>p2. read_payload tg p2 type mem rd3 rmax = (st, p', rd')"
        using r Inr x1 i2 x2 i3 x3 by (auto simp: Prop_readFromByteString_def Let_def)
      then have "rd3 \<le> rd'" using read_payload_mono by blast
      then show ?thesis using m1 m2 m3 by simp
    qed
  qed
qed

lemma Prop_readFromByteString_cong:
  assumes a: "\<forall>i. rd \<le> i \<longrightarrow> mem' i = mem i"
  shows "Prop_readFromByteString tg p mem' rd rmax = Prop_readFromByteString tg p mem rd rmax"
proof -
  have v: "(extract_val mem' r rmax :: status_t + ('a::len word \<times> nat)) = extract_val mem r rmax"
    if "rd \<le> r" for r
    using a that by (intro extract_val_cong) auto
  have c: "extract_cstr mem' r rmax = extract_cstr mem r rmax" if "rd \<le> r" for r
    using a that by (intro extract_cstr_cong) auto
  have pl: "read_payload tg p2 type mem' r rmax = read_payload tg p2 type mem r rmax"
    if "rd \<le> r" for r p2 type
    using a that by (intro read_payload_cong) auto
  show ?thesis
  proof (cases "extract_val mem rd rmax :: status_t + (16 word \<times> nat)")
    case (Inl e)
    then show ?thesis by (simp add: Prop_readFromByteString_def v)
  next
    case (Inr x1)
    obtain len rd1 where x1: "x1 = (len, rd1)" by (cases x1)
    have m1: "rd \<le> rd1" using extract_val_mono [OF Inr [unfolded x1]] by simp
    show ?thesis
    proof (cases "extract_val mem rd1 rmax :: status_t + (8 word \<times> nat)")
      case (Inl e)
      with Inr x1 m1 show ?thesis by (simp add: Prop_readFromByteString_def v)
    next
      case i2: (Inr x2)
      obtain type rd2 where x2: "x2 = (type, rd2)" by (cases x2)
      have m2: "rd \<le> rd2" using extract_val_mono [OF i2 [unfolded x2]] m1 by simp
      show ?thesis
      proof (cases "extract_cstr mem rd2 rmax")
        case (Inl e)
        with Inr x1 i2 x2 m1 m2 show ?thesis by (simp add: Prop_readFromByteString_def v c)
      next
        case i3: (Inr x3)
        obtain name rd3 where x3: "x3 = (name, rd3)" by (cases x3)
        have m3: "rd \<le> rd3" using extract_cstr_mono [OF i3 [unfolded x3]] m2 by simp
        show ?thesis
          using Inr x1 i2 x2 i3 x3 m1 m2 m3
          by (simp add: Prop_readFromByteString_def v c pl Let_def)
      qed
    qed
  qed
qed

lemma read_props_cong:
  "\<forall>i. rd \<le> i \<longrightarrow> mem' i = mem i \<Longrightarrow>
   read_props tg al mem' rmax n it rd = read_props tg al mem rmax n it rd"
proof (induction n arbitrary: it rd)
  case 0
  then show ?case by simp
next
  case (Suc n)
  show ?case
  proof (cases "allocateProp0 al it")
    case None
    then show ?thesis by simp
  next
    case (Some r)
    obtain j it' where r: "r = (j, it')" by (cases r)
    have e: "Prop_readFromByteString tg (mProps it' ! j) mem' rd rmax
           = Prop_readFromByteString tg (mProps it' ! j) mem rd rmax"
      using Suc.prems by (rule Prop_readFromByteString_cong)
    obtain st p rd' where q: "Prop_readFromByteString tg (mProps it' ! j) mem rd rmax = (st, p, rd')"
      by (cases "Prop_readFromByteString tg (mProps it' ! j) mem rd rmax")
    have "rd \<le> rd'" using q by (rule Prop_readFromByteString_mono)
    then have "\<forall>i. rd' \<le> i \<longrightarrow> mem' i = mem i" using Suc.prems by simp
    from Suc.IH [OF this] show ?thesis
      using Some r e q by (cases st) simp_all
  qed
qed

lemma extract_header_eq:
  "extract_header mem len =
     (if 12 > len then None
      else (case extract_cstr mem 12 len of
              Inl e \<Rightarrow> None
            | Inr (key, r5) \<Rightarrow>
                if r5 + 16 > len then None
                else Some \<lparr>h_size = bytes_word (map mem [0..<4]),
                           h_header_size = bytes_word (map mem [4..<8]),
                           h_version = bytes_word (map mem [8..<10]),
                           h_key_size = bytes_word (map mem [10..<12]),
                           h_key = key,
                           h_pid = bytes_word (map mem [r5..<r5 + 4]),
                           h_uid = bytes_word (map mem [r5 + 4..<r5 + 8]),
                           h_timestamp = bytes_word (map mem [r5 + 8..<r5 + 16]),
                           h_read = r5 + 16\<rparr>))"
proof (cases "12 > len")
  case True
  then show ?thesis
    unfolding extract_header_def extract_val_def Let_def
    by (simp split: sum.splits prod.splits del: upt_rec_numeral)
next
  case False
  then have l: "\<not> len < 4" "\<not> len < 8" "\<not> len < 10" "\<not> len < 12" by simp_all
  have v32: "(extract_val m r len :: status_t + (32 word \<times> nat))
      = (if r + 4 > len then Inl BAD_VALUE else Inr (bytes_word (map m [r..<r + 4]), r + 4))" for m r
    by (simp add: extract_val_def Let_def)
  have v16: "(extract_val m r len :: status_t + (16 word \<times> nat))
      = (if r + 2 > len then Inl BAD_VALUE else Inr (bytes_word (map m [r..<r + 2]), r + 2))" for m r
    by (simp add: extract_val_def Let_def)
  have v64: "(extract_val m r len :: status_t + (64 word \<times> nat))
      = (if r + 8 > len then Inl BAD_VALUE else Inr (bytes_word (map m [r..<r + 8]), r + 8))" for m r
    by (simp add: extract_val_def Let_def)
  show ?thesis
  proof (cases "extract_cstr mem 12 len")
    case (Inl e)
    then show ?thesis using False l
      unfolding extract_header_def v32 v16 v64
      by (simp del: upt_rec_numeral)
  next
    case (Inr x)
    obtain key r5 where x: "x = (key, r5)" by (cases x)
    show ?thesis using False l Inr x
      unfolding extract_header_def v32 v16 v64
      by (simp del: upt_rec_numeral add: add.assoc)
  qed
qed

lemma extract_cstr_length:
  "extract_cstr mem rd rmax = Inr (s, rd') \<Longrightarrow> rd' = rd + length s + 1 \<and> 0 \<notin> set s"
proof -
  assume a: "extract_cstr mem rd rmax = Inr (s, rd')"
  then obtain q where q: "extract_cstr_loop mem rmax rd = Some q"
    and s: "s = map mem [rd..<q]" and r: "rd' = rd + ((q - rd) + 1)"
    by (auto simp: extract_cstr_def Let_def split: option.splits)
  note g = extract_cstr_loop_ge [OF q]
  have "0 \<notin> set s" unfolding s using g by auto
  then show ?thesis using s r g by simp
qed

lemma readFromByteString_header_fail:
  "extract_header mem len = None \<Longrightarrow>
   readFromByteString tg al it False mem len = Some (INVALID_OPERATION, it)"
  by (simp add: readFromByteString_def)

lemma extract_header_read_ge:
  "extract_header mem len = Some h \<Longrightarrow> 12 < h_read h"
  unfolding extract_header_eq
  by (auto split: if_splits sum.splits prod.splits dest!: extract_cstr_mono)

lemma extract_header_version:
  "extract_header (mem(8 := x, 9 := y)) len
     = map_option (\<lambda>h. h\<lparr>h_version := bytes_word [x, y]\<rparr>) (extract_header mem len)"
proof -
  let ?m = "mem(8 := x, 9 := y)"
  have c: "extract_cstr ?m 12 len = extract_cstr mem 12 len"
    by (rule extract_cstr_cong) simp
  have m: "map ?m [r..<s] = map mem [r..<s]" if "12 < r" for r s
    using that by (intro map_cong) auto
  have f: "map ?m [0..<4] = map mem [0..<4]" "map ?m [4..<8] = map mem [4..<8]"
    "map ?m [10..<12] = map mem [10..<12]" "map ?m [8..<10] = [x, y]"
    by (simp_all add: upt_rec_numeral)
  show ?thesis
  proof (cases "extract_cstr mem 12 len")
    case (Inl e)
    then show ?thesis unfolding extract_header_eq c by simp
  next
    case (Inr r)
    obtain key r5 where r: "r = (key, r5)" by (cases r)
    have g: "12 < r5" using extract_cstr_mono [OF Inr [unfolded r]] .
    then have g': "12 < r5 + 4" "12 < r5 + 8" by simp_all
    show ?thesis
      unfolding extract_header_eq c f Inr r
      by (simp del: upt_rec_numeral add: m [OF g] m [OF g'(1)] m [OF g'(2)])
  qed
qed

lemma readFromByteString_version:
  "readFromByteString tg al it b (mem(8 := x, 9 := y)) len = readFromByteString tg al it b mem len"
proof (cases "extract_header mem len")
  case None
  then show ?thesis by (simp add: readFromByteString_def extract_header_version)
next
  case (Some h)
  let ?m = "mem(8 := x, 9 := y)"
  let ?h = "h\<lparr>h_version := bytes_word [x, y]\<rparr>"
  have eh: "extract_header ?m len = Some ?h" by (simp add: extract_header_version Some)
  have ge: "12 < h_read h" using Some by (rule extract_header_read_ge)
  have v: "(extract_val ?m r len :: status_t + (32 word \<times> nat)) = extract_val mem r len"
    if "12 < r" for r
    using that by (intro extract_val_cong) auto
  have tail: "(case (extract_val ?m r len :: status_t + (32 word \<times> nat)) of
                 Inl e \<Rightarrow> A
               | Inr (c, rd') \<Rightarrow> read_props tg al ?m len (unat c) it' rd')
            = (case (extract_val mem r len :: status_t + (32 word \<times> nat)) of
                 Inl e \<Rightarrow> A
               | Inr (c, rd') \<Rightarrow> read_props tg al mem len (unat c) it' rd')"
    if r: "12 < r" for r A it'
  proof (cases "extract_val mem r len :: status_t + (32 word \<times> nat)")
    case (Inl e)
    then show ?thesis by (simp add: v [OF r])
  next
    case (Inr q)
    obtain c rd' where q: "q = (c, rd')" by (cases q)
    have "r \<le> rd'" using extract_val_mono [OF Inr [unfolded q]] by simp
    then have "\<forall>i. rd' \<le> i \<longrightarrow> ?m i = mem i" using r by auto
    then have "read_props tg al ?m len (unat c) it' rd' = read_props tg al mem len (unat c) it' rd'"
      by (rule read_props_cong)
    then show ?thesis using Inr q by (simp add: v [OF r])
  qed
  show ?thesis
  proof (cases "h_read h < unat (h_header_size h)")
    case True
    then have "12 < unat (h_header_size h)" using ge by simp
    note t = tail [OF this]
    show ?thesis
      unfolding readFromByteString_def eh Some
      using True by (simp add: Let_def t split: sum.splits prod.splits)
  next
    case False
    note t = tail [OF ge]
    show ?thesis
      unfolding readFromByteString_def eh Some
      using False by (simp add: Let_def t split: sum.splits prod.splits)
  qed
qed

text \<open>
  An entry in use without a name is what the decoder leaves when a record is missing:
  the slot is allocated before the record is read.  \<open>item_unnamed\<close> is such an item.
\<close>

lemma decode_leaves_unnamed_entry:
  "outcome (readFromByteString aosp_tags always empty_item False (mem_of buf_short zeros) 43)
     = Some (INVALID_OPERATION, mKey item_unnamed, props item_unnamed)"
  by code_simp

text \<open>
  C5.  When a field of the fixed header cannot be read the decoder returns
  \<^verbatim>\<open>INVALID_OPERATION\<close>.  Otherwise the total size, the header size and the key size are
  the fields at offsets 0, 4 and 10, the key is the string at offset 12 and the fixed
  header ends 16 bytes behind its terminator; the decoder returns \<^verbatim>\<open>INVALID_OPERATION\<close>,
  with the item as it was, when the total size is larger than the length supplied, when
  the key size differs from the length of the key plus one, or when the header size is
  larger than the total size; when the fixed header ends behind the header size it
  returns \<^verbatim>\<open>INVALID_OPERATION\<close>, the key already stored; otherwise it goes on with the
  property count at the offset the header size gives, skipping what lies between.
\<close>

theorem decode_header_checks:
  "(extract_header mem len = None \<longrightarrow>
      readFromByteString tg al it False mem len = Some (INVALID_OPERATION, it)) \<and>
   (\<forall>h. extract_header mem len = Some h \<longrightarrow>
         h_size h = bytes_word (map mem [0..<4]) \<and>
         h_header_size h = bytes_word (map mem [4..<8]) \<and>
         h_key_size h = bytes_word (map mem [10..<12]) \<and>
         extract_cstr mem 12 len = Inr (h_key h, 12 + strlen (h_key h) + 1) \<and>
         h_read h = 12 + strlen (h_key h) + 1 + 16 \<and>
         (unat (h_size h) > len \<or> strlen (h_key h) + 1 \<noteq> unat (h_key_size h)
            \<or> unat (h_header_size h) > unat (h_size h) \<longrightarrow>
          readFromByteString tg al it False mem len = Some (INVALID_OPERATION, it)) \<and>
         (\<not> (unat (h_size h) > len \<or> strlen (h_key h) + 1 \<noteq> unat (h_key_size h)
            \<or> unat (h_header_size h) > unat (h_size h)) \<longrightarrow>
          (h_read h > unat (h_header_size h) \<longrightarrow>
             readFromByteString tg al it False mem len
               = Some (INVALID_OPERATION, it\<lparr>mKey := h_key h\<rparr>)) \<and>
          (h_read h \<le> unat (h_header_size h) \<longrightarrow>
             readFromByteString tg al it False mem len
               = (case (extract_val mem (unat (h_header_size h)) len :: status_t + (32 word \<times> nat)) of
                    Inl e \<Rightarrow> Some (INVALID_OPERATION, it\<lparr>mKey := h_key h\<rparr>)
                  | Inr (propCount, rd') \<Rightarrow>
                      read_props tg al mem len (unat propCount)
                        (it\<lparr>mKey := h_key h, mPid := h_pid h, mUid := h_uid h,
                            mTimestamp := h_timestamp h\<rparr>) rd'))))"
proof (intro conjI allI impI)
  assume "extract_header mem len = None"
  then show "readFromByteString tg al it False mem len = Some (INVALID_OPERATION, it)"
    by (rule readFromByteString_header_fail)
next
  fix h
  assume h: "extract_header mem len = Some h"
  from h obtain key r5 where c: "extract_cstr mem 12 len = Inr (key, r5)"
    and hh: "h = \<lparr>h_size = bytes_word (map mem [0..<4]),
                   h_header_size = bytes_word (map mem [4..<8]),
                   h_version = bytes_word (map mem [8..<10]),
                   h_key_size = bytes_word (map mem [10..<12]),
                   h_key = key,
                   h_pid = bytes_word (map mem [r5..<r5 + 4]),
                   h_uid = bytes_word (map mem [r5 + 4..<r5 + 8]),
                   h_timestamp = bytes_word (map mem [r5 + 8..<r5 + 16]),
                   h_read = r5 + 16\<rparr>"
    unfolding extract_header_eq by (auto split: if_splits sum.splits prod.splits)
  have r5: "r5 = 12 + length key + 1" using extract_cstr_length [OF c] by simp
  have f: "h_key h = key" "h_read h = r5 + 16"
    by (simp_all add: hh)
  show "h_size h = bytes_word (map mem [0..<4])" by (simp add: hh)
  show "h_header_size h = bytes_word (map mem [4..<8])" by (simp add: hh)
  show "h_key_size h = bytes_word (map mem [10..<12])" by (simp add: hh)
  show "extract_cstr mem 12 len = Inr (h_key h, 12 + strlen (h_key h) + 1)"
    using c r5 f(1) by (simp add: strlen_def)
  show "h_read h = 12 + strlen (h_key h) + 1 + 16"
    using r5 f by (simp add: strlen_def)
  show "readFromByteString tg al it False mem len = Some (INVALID_OPERATION, it)"
    if "unat (h_size h) > len \<or> strlen (h_key h) + 1 \<noteq> unat (h_key_size h)
            \<or> unat (h_header_size h) > unat (h_size h)"
    using that h by (simp add: readFromByteString_def)
  show "readFromByteString tg al it False mem len = Some (INVALID_OPERATION, it\<lparr>mKey := h_key h\<rparr>)"
    if "\<not> (unat (h_size h) > len \<or> strlen (h_key h) + 1 \<noteq> unat (h_key_size h)
            \<or> unat (h_header_size h) > unat (h_size h))" "h_read h > unat (h_header_size h)"
    using that h by (simp add: readFromByteString_def Let_def)
  show "readFromByteString tg al it False mem len
               = (case (extract_val mem (unat (h_header_size h)) len :: status_t + (32 word \<times> nat)) of
                    Inl e \<Rightarrow> Some (INVALID_OPERATION, it\<lparr>mKey := h_key h\<rparr>)
                  | Inr (propCount, rd') \<Rightarrow>
                      read_props tg al mem len (unat propCount)
                        (it\<lparr>mKey := h_key h, mPid := h_pid h, mUid := h_uid h,
                            mTimestamp := h_timestamp h\<rparr>) rd')"
    if "\<not> (unat (h_size h) > len \<or> strlen (h_key h) + 1 \<noteq> unat (h_key_size h)
            \<or> unat (h_header_size h) > unat (h_size h))" "h_read h \<le> unat (h_header_size h)"
  proof -
    have "(if h_read h < unat (h_header_size h)
           then h_read h + (unat (h_header_size h) - h_read h) else h_read h)
          = unat (h_header_size h)"
      using that(2) by simp
    then show ?thesis using that h
      by (simp add: readFromByteString_def Let_def)
  qed
qed

theorem decode_header_checks_witness:
  "extract_header (mem_of buf_abc zeros) 64
     = Some \<lparr>h_size = 64, h_header_size = 30, h_version = 0, h_key_size = 2, h_key = [107],
             h_pid = 1, h_uid = 2, h_timestamp = 5, h_read = 30\<rparr> \<and>
   outcome (readFromByteString aosp_tags always empty_item False (mem_of buf_abc zeros) 64)
     = Some (NO_ERROR, [107], [prop_a, prop_b, prop_c]) \<and>
   readFromByteString aosp_tags always empty_item False (mem_of (buf_abc[0 := 65]) zeros) 64
     = Some (INVALID_OPERATION, empty_item) \<and>
   readFromByteString aosp_tags always empty_item False (mem_of (buf_abc[10 := 3]) zeros) 64
     = Some (INVALID_OPERATION, empty_item) \<and>
   readFromByteString aosp_tags always empty_item False (mem_of (buf_abc[4 := 100]) zeros) 64
     = Some (INVALID_OPERATION, empty_item) \<and>
   readFromByteString aosp_tags always empty_item False (mem_of (buf_abc[4 := 20]) zeros) 64
     = Some (INVALID_OPERATION, empty_item\<lparr>mKey := [107]\<rparr>) \<and>
   outcome (readFromByteString aosp_tags always empty_item False (mem_of buf_padded zeros) 66)
     = Some (NO_ERROR, [107], [prop_a, prop_b, prop_c]) \<and>
   extract_header (mem_of (take 20 buf_abc) zeros) 20 = None \<and>
   readFromByteString aosp_tags always empty_item False (mem_of (take 20 buf_abc) zeros) 20
     = Some (INVALID_OPERATION, empty_item)"
proof -
  have h0: "extract_header (mem_of buf_abc zeros) 64
     = Some \<lparr>h_size = 64, h_header_size = 30, h_version = 0, h_key_size = 2, h_key = [107],
             h_pid = 1, h_uid = 2, h_timestamp = 5, h_read = 30\<rparr>" by code_simp
  have h1: "extract_header (mem_of (buf_abc[0 := 65]) zeros) 64
     = Some \<lparr>h_size = 65, h_header_size = 30, h_version = 0, h_key_size = 2, h_key = [107],
             h_pid = 1, h_uid = 2, h_timestamp = 5, h_read = 30\<rparr>" by code_simp
  have h2: "extract_header (mem_of (buf_abc[10 := 3]) zeros) 64
     = Some \<lparr>h_size = 64, h_header_size = 30, h_version = 0, h_key_size = 3, h_key = [107],
             h_pid = 1, h_uid = 2, h_timestamp = 5, h_read = 30\<rparr>" by code_simp
  have h3: "extract_header (mem_of (buf_abc[4 := 100]) zeros) 64
     = Some \<lparr>h_size = 64, h_header_size = 100, h_version = 0, h_key_size = 2, h_key = [107],
             h_pid = 1, h_uid = 2, h_timestamp = 5, h_read = 30\<rparr>" by code_simp
  have h4: "extract_header (mem_of (buf_abc[4 := 20]) zeros) 64
     = Some \<lparr>h_size = 64, h_header_size = 20, h_version = 0, h_key_size = 2, h_key = [107],
             h_pid = 1, h_uid = 2, h_timestamp = 5, h_read = 30\<rparr>" by code_simp
  have h6: "extract_header (mem_of (take 20 buf_abc) zeros) 20 = None" by code_simp
  have e0: "outcome (readFromByteString aosp_tags always empty_item False (mem_of buf_abc zeros) 64)
     = Some (NO_ERROR, [107], [prop_a, prop_b, prop_c])" by code_simp
  have e5: "outcome (readFromByteString aosp_tags always empty_item False (mem_of buf_padded zeros) 66)
     = Some (NO_ERROR, [107], [prop_a, prop_b, prop_c])" by code_simp
  note T1 = decode_header_checks [of "mem_of (buf_abc[0 := 65]) zeros" 64 aosp_tags always
      empty_item, THEN conjunct2, rule_format, OF h1]
  note T2 = decode_header_checks [of "mem_of (buf_abc[10 := 3]) zeros" 64 aosp_tags always
      empty_item, THEN conjunct2, rule_format, OF h2]
  note T3 = decode_header_checks [of "mem_of (buf_abc[4 := 100]) zeros" 64 aosp_tags always
      empty_item, THEN conjunct2, rule_format, OF h3]
  note T4 = decode_header_checks [of "mem_of (buf_abc[4 := 20]) zeros" 64 aosp_tags always
      empty_item, THEN conjunct2, rule_format, OF h4]
  note T6 = decode_header_checks [of "mem_of (take 20 buf_abc) zeros" 20 aosp_tags always
      empty_item, THEN conjunct1, rule_format, OF h6]
  have r1: "readFromByteString aosp_tags always empty_item False (mem_of (buf_abc[0 := 65]) zeros) 64
     = Some (INVALID_OPERATION, empty_item)" using T1 by simp
  have r2: "readFromByteString aosp_tags always empty_item False (mem_of (buf_abc[10 := 3]) zeros) 64
     = Some (INVALID_OPERATION, empty_item)" using T2 by (simp add: strlen_def)
  have r3: "readFromByteString aosp_tags always empty_item False (mem_of (buf_abc[4 := 100]) zeros) 64
     = Some (INVALID_OPERATION, empty_item)" using T3 by simp
  have r4: "readFromByteString aosp_tags always empty_item False (mem_of (buf_abc[4 := 20]) zeros) 64
     = Some (INVALID_OPERATION, empty_item\<lparr>mKey := [107]\<rparr>)" using T4 by (simp add: strlen_def)
  show ?thesis by (intro conjI) (rule h0 e0 r1 r2 r3 r4 e5 h6 T6)+
qed

text \<open>
  C10.  The byte decoder gives the same result whatever the two bytes of the version
  field are: the field is read and not looked at.  The parcel decoder returns
  \<^verbatim>\<open>INVALID_OPERATION\<close> for every version other than 0.
\<close>

theorem decode_ignores_version:
  "readFromByteString tg al it b (mem(8 := x, 9 := y)) len = readFromByteString tg al it b mem len \<and>
   (\<forall>h. extract_header mem len = Some h \<longrightarrow> h_version h = bytes_word (map mem [8..<10])) \<and>
   (\<forall>v d. readInt32 ops data = (Inr v, d) \<and> v \<noteq> 0 \<longrightarrow>
      readFromParcel tg ops al it data = Some (INVALID_OPERATION, it, d)) \<and>
   (\<forall>d. readInt32 ops data = (Inr 0, d) \<longrightarrow>
      readFromParcel tg ops al it data = readFromParcel0 tg ops al it d)"
proof -
  have "h_version h = bytes_word (map mem [8..<10])" if "extract_header mem len = Some h" for h
    using that unfolding extract_header_eq
    by (auto split: if_splits sum.splits prod.splits)
  then show ?thesis
    by (auto simp: readFromByteString_version readFromParcel_def)
qed

theorem decode_ignores_version_witness:
  "outcome (readFromByteString aosp_tags always empty_item False
              ((mem_of buf_abc zeros)(8 := 255, 9 := 255)) 64)
     = Some (NO_ERROR, [107], [prop_a, prop_b, prop_c]) \<and>
   extract_header (mem_of (buf_abc[8 := 255, 9 := 255]) zeros) 64
     = Some \<lparr>h_size = 64, h_header_size = 30, h_version = 65535, h_key_size = 2, h_key = [107],
             h_pid = 1, h_uid = 2, h_timestamp = 5, h_read = 30\<rparr> \<and>
   readInt32 token_ops parcel_v1 = (Inr 1, tl parcel_aa) \<and>
   readFromParcel aosp_tags token_ops always empty_item parcel_v1
     = Some (INVALID_OPERATION, empty_item, tl parcel_aa)"
proof -
  note T = decode_ignores_version [of aosp_tags always empty_item False "mem_of buf_abc zeros"
      255 255 64 token_ops parcel_v1]
  have e: "outcome (readFromByteString aosp_tags always empty_item False (mem_of buf_abc zeros) 64)
     = Some (NO_ERROR, [107], [prop_a, prop_b, prop_c])" by code_simp
  have h: "extract_header (mem_of (buf_abc[8 := 255, 9 := 255]) zeros) 64
     = Some \<lparr>h_size = 64, h_header_size = 30, h_version = 65535, h_key_size = 2, h_key = [107],
             h_pid = 1, h_uid = 2, h_timestamp = 5, h_read = 30\<rparr>" by code_simp
  have r: "readInt32 token_ops parcel_v1 = (Inr 1, tl parcel_aa)" by code_simp
  have 1: "readFromByteString aosp_tags always empty_item False
              ((mem_of buf_abc zeros)(8 := 255, 9 := 255)) 64
         = readFromByteString aosp_tags always empty_item False (mem_of buf_abc zeros) 64"
    using T by (rule conjunct1)
  have 2: "readFromParcel aosp_tags token_ops always empty_item parcel_v1
     = Some (INVALID_OPERATION, empty_item, tl parcel_aa)"
    using T r by simp
  have 3: "outcome (readFromByteString aosp_tags always empty_item False
              ((mem_of buf_abc zeros)(8 := 255, 9 := 255)) 64)
     = Some (NO_ERROR, [107], [prop_a, prop_b, prop_c])"
    unfolding 1 by (rule e)
  show ?thesis by (intro conjI) (rule 3 h r 2)+
qed

lemma extract_cstr_at_end:
  "extract_cstr mem rmax rmax = (if mem rmax = 0 then Inr ([], rmax + 1) else Inl BAD_VALUE)"
  by (subst extract_cstr_def, subst extract_cstr_loop.simps) simp

text \<open>
  C4.  The string scan reads the byte at its pointer before it compares the pointer
  with the end of the buffer: started at the end, it reads the byte behind the buffer
  and succeeds when that byte is zero.  So the property record of \<open>buf_unterminated\<close>,
  whose string has no terminator within the 41 bytes supplied, is accepted or rejected
  according to the byte at offset 41.
\<close>

theorem decode_string_scan_reads_past_end:
  "extract_cstr mem rmax rmax = (if mem rmax = 0 then Inr ([], rmax + 1) else Inl BAD_VALUE) \<and>
   length buf_unterminated = 41 \<and>
   outcome (readFromByteString aosp_tags always empty_item False (mem_of buf_unterminated zeros) 41)
     = Some (NO_ERROR, [107], [prop_c]) \<and>
   outcome (readFromByteString aosp_tags always empty_item False (mem_of buf_unterminated ones) 41)
     = Some (INVALID_OPERATION, [107], [\<lparr>mName = Some [99], mType = kTypeNone, u = NoValue\<rparr>])"
proof -
  have 1: "length buf_unterminated = 41" by (simp add: buf_unterminated_def)
  have 2: "outcome (readFromByteString aosp_tags always empty_item False (mem_of buf_unterminated zeros) 41)
     = Some (NO_ERROR, [107], [prop_c])" by code_simp
  have 3: "outcome (readFromByteString aosp_tags always empty_item False (mem_of buf_unterminated ones) 41)
     = Some (INVALID_OPERATION, [107], [\<lparr>mName = Some [99], mType = kTypeNone, u = NoValue\<rparr>])"
    by code_simp
  show ?thesis by (intro conjI) (rule extract_cstr_at_end 1 2 3)+
qed

theorem decode_string_scan_reads_past_end_witness:
  "extract_cstr (mem_of buf_unterminated zeros) 41 41 = Inr ([], 42) \<and>
   extract_cstr (mem_of buf_unterminated ones) 41 41 = Inl BAD_VALUE"
  using decode_string_scan_reads_past_end [of "mem_of buf_unterminated zeros" 41, THEN conjunct1]
    decode_string_scan_reads_past_end [of "mem_of buf_unterminated ones" 41, THEN conjunct1]
  by (simp add: mem_of_def zeros_def ones_def buf_unterminated_def)

text \<open>
  C1.  A property of type None is written with the type code of a string and no payload.
  Decoding the encoding of \<open>item_none\<close> therefore scans for a string behind the name, at
  the end of the buffer: it yields a string property or fails, never the property of
  type None that was encoded.
\<close>

theorem roundtrip_none_fails:
  "writeToByteString aosp_tags always item_none False False
     = Some (NO_ERROR, Some (buf_none, 39)) \<and>
   props item_none = [\<lparr>mName = Some [110], mType = kTypeNone, u = NoValue\<rparr>] \<and>
   outcome (readFromByteString aosp_tags always empty_item False (mem_of buf_none zeros) 39)
     = Some (NO_ERROR, [107],
         [\<lparr>mName = Some [110], mType = kTypeCString, u = CStringValue []\<rparr>]) \<and>
   outcome (readFromByteString aosp_tags always empty_item False (mem_of buf_none ones) 39)
     = Some (INVALID_OPERATION, [107], [\<lparr>mName = Some [110], mType = kTypeNone, u = NoValue\<rparr>])"
proof -
  have e: "encodable item_none"
    by (simp add: wire_eval item_none_def prop_n_def props_def)
  have 1: "writeToByteString aosp_tags always item_none False False
     = Some (NO_ERROR, Some (buf_none, 39))"
    unfolding writeToByteString_eq [OF e]
    by (simp add: wire_eval item_none_def prop_n_def props_def always_def buf_none_def)
  have 2: "props item_none = [\<lparr>mName = Some [110], mType = kTypeNone, u = NoValue\<rparr>]"
    by (simp add: item_none_def prop_n_def props_def)
  have 3: "outcome (readFromByteString aosp_tags always empty_item False (mem_of buf_none zeros) 39)
     = Some (NO_ERROR, [107],
         [\<lparr>mName = Some [110], mType = kTypeCString, u = CStringValue []\<rparr>])"
    by code_simp
  have 4: "outcome (readFromByteString aosp_tags always empty_item False (mem_of buf_none ones) 39)
     = Some (INVALID_OPERATION, [107], [\<lparr>mName = Some [110], mType = kTypeNone, u = NoValue\<rparr>])"
    by code_simp
  show ?thesis by (intro conjI) (rule 1 2 3 4)+
qed

theorem roundtrip_none_fails_witness:
  "map_option (\<lambda>(st, k, ps). map mType ps)
     (outcome (readFromByteString aosp_tags always empty_item False (mem_of buf_none zeros) 39))
     = Some [kTypeCString] \<and>
   map_option (\<lambda>(st, k, ps). st)
     (outcome (readFromByteString aosp_tags always empty_item False (mem_of buf_none ones) 39))
     = Some INVALID_OPERATION \<and>
   map mType (props item_none) = [kTypeNone]"
  using roundtrip_none_fails by simp

text \<open>
  C3 as stated fails for both decoders: they take the next slot with \<^verbatim>\<open>allocateProp()\<close>
  and store the name read, without a lookup.  Decoding \<open>buf_aa\<close>, or the parcel
  \<open>parcel_aa\<close>, into the empty item gives two entries named \<open>a\<close>.
\<close>

theorem decoders_duplicate_names_counterexample:
  "names_unique empty_item \<and>
   outcome (readFromByteString aosp_tags always empty_item False (mem_of buf_aa zeros) 52)
     = Some (NO_ERROR, [107], [prop_a, prop_a2]) \<and>
   map_option (\<lambda>(st, it). names_unique it)
       (readFromByteString aosp_tags always empty_item False (mem_of buf_aa zeros) 52)
     = Some False \<and>
   map_option (\<lambda>(st, it, d). (st, props it, d))
       (readFromParcel aosp_tags token_ops always empty_item parcel_aa)
     = Some (NO_ERROR, [prop_a, prop_a2], []) \<and>
   map_option (\<lambda>(st, it, d). names_unique it)
       (readFromParcel aosp_tags token_ops always empty_item parcel_aa)
     = Some False"
proof -
  have 1: "names_unique empty_item" by (simp add: names_unique_def empty_item_def props_def)
  have 2: "outcome (readFromByteString aosp_tags always empty_item False (mem_of buf_aa zeros) 52)
     = Some (NO_ERROR, [107], [prop_a, prop_a2])" by code_simp
  have 3: "map_option (\<lambda>(st, it). names_unique it)
       (readFromByteString aosp_tags always empty_item False (mem_of buf_aa zeros) 52)
     = Some False" by code_simp
  have 4: "map_option (\<lambda>(st, it, d). (st, props it, d))
       (readFromParcel aosp_tags token_ops always empty_item parcel_aa)
     = Some (NO_ERROR, [prop_a, prop_a2], [])" by code_simp
  have 5: "map_option (\<lambda>(st, it, d). names_unique it)
       (readFromParcel aosp_tags token_ops always empty_item parcel_aa)
     = Some False" by code_simp
  show ?thesis by (intro conjI) (rule 1 2 3 4 5)+
qed

end
